theory Spec2Isabelle
  imports Main "HOL-Library.Word" "HOL-Library.AList" "HOL-Library.Sublist"
begin

section \<open>JavaScript values\<close>

text \<open>
  The library under study is \<^verbatim>\<open>src/unnamed/part_000\<close>, the variant the README documents
  (default call timeout 10000, \<^verbatim>\<open>off\<close>, rejection of pending calls on \<^verbatim>\<open>destroy\<close>).
  The older \<^verbatim>\<open>src/ibox.js\<close> (default timeout 5000, no \<^verbatim>\<open>off\<close>, no validation, no bound on
  the pending calls) is not embedded.
  A JavaScript string is a sequence of 16-bit code units. Numbers are restricted to the
  integers: call ids are integer counters and the code does no arithmetic on anything else.
  \<^verbatim>\<open>JFun n\<close> is the function object with identity \<open>n\<close>, \<^verbatim>\<open>JObj n\<close> an object with identity
  \<open>n\<close> that has none of the properties the library reads, \<^verbatim>\<open>JError m\<close> an \<^verbatim>\<open>Error\<close> object
  whose \<^verbatim>\<open>message\<close> is \<open>m\<close>.
\<close>

type_synonym jsstring = "16 word list"

datatype jsval =
    JUndefined
  | JNull
  | JBool bool
  | JNum int
  | JStr jsstring
  | JFun nat
  | JObj nat
  | JError jsstring

definition ascii :: "string \<Rightarrow> jsstring" where
  "ascii s = map (\<lambda>c. of_nat (of_char c)) s"

text \<open>Truthiness, as \<^verbatim>\<open>if (v)\<close>, \<^verbatim>\<open>!v\<close> and \<^verbatim>\<open>a && b\<close> test it.\<close>

fun truthy :: "jsval \<Rightarrow> bool" where
  "truthy JUndefined = False"
| "truthy JNull = False"
| "truthy (JBool b) = b"
| "truthy (JNum n) = (n \<noteq> 0)"
| "truthy (JStr s) = (s \<noteq> [])"
| "truthy (JFun f) = True"
| "truthy (JObj obj) = True"
| "truthy (JError m) = True"

text \<open>\<^verbatim>\<open>typeof v === 'function'\<close>.\<close>

fun is_function :: "jsval \<Rightarrow> bool" where
  "is_function (JFun f) = True"
| "is_function v = False"

text \<open>
  \<^verbatim>\<open>String.prototype.trim\<close> strips the ECMAScript white space and line terminator code
  units from both ends: TAB, LF, VT, FF, CR, SP, NBSP, U+1680, U+2000 to U+200A, LS, PS,
  U+202F, U+205F, U+3000 and the byte order mark U+FEFF.
\<close>

definition is_ws :: "16 word \<Rightarrow> bool" where
  "is_ws c \<longleftrightarrow>
     c \<in> {0x9, 0xA, 0xB, 0xC, 0xD, 0x20, 0xA0, 0x1680, 0x2028, 0x2029, 0x202F, 0x205F,
          0x3000, 0xFEFF}
     \<or> (0x2000 \<le> c \<and> c \<le> 0x200A)"

definition trim :: "jsstring \<Rightarrow> jsstring" where
  "trim s = rev (dropWhile is_ws (rev (dropWhile is_ws s)))"

section \<open>Errors\<close>

text \<open>
  Every \<^verbatim>\<open>new Error(...)\<close> of the source is a constructor:
  \<^item> \<open>EventNameError\<close>: \<^verbatim>\<open>'ibox: Event name must be a non-empty string'\<close>
  \<^item> \<open>InstanceDestroyed\<close>: \<^verbatim>\<open>'ibox: Instance destroyed'\<close>
  \<^item> \<open>Busy\<close>: \<^verbatim>\<open>'ibox: Busy'\<close>
  \<^item> \<open>Timeout event timeout\<close>: \<^verbatim>\<open>`ibox: Timeout [${event}] after ${timeout}ms`\<close>
  \<^item> \<open>SendFailed\<close>: \<^verbatim>\<open>'ibox: Send failed'\<close>
  \<^item> \<open>HandlerNotFunction\<close>: \<^verbatim>\<open>'ibox: Handler must be a function'\<close>
  \<^item> \<open>ConnectionDestroyed\<close>: \<^verbatim>\<open>'ibox: Connection destroyed'\<close>
  \<^item> \<open>RemoteError v\<close>: \<^verbatim>\<open>new Error(_ibox_error)\<close> with \<open>v\<close> the value of \<^verbatim>\<open>_ibox_error\<close>
  \<^item> \<open>Thrown v\<close>: a value thrown by the platform (a failing \<^verbatim>\<open>postMessage\<close>) that the
    library lets through.
\<close>

datatype error =
    EventNameError
  | InstanceDestroyed
  | Busy
  | Timeout jsval jsval
  | SendFailed
  | HandlerNotFunction
  | ConnectionDestroyed
  | RemoteError jsval
  | Thrown jsval

text \<open>
  The \<^verbatim>\<open>message\<close> of an error, where it is a fixed text or the string handed to
  \<^verbatim>\<open>new Error\<close>. The template text of \<open>Timeout\<close> and the string conversion of a
  non-string argument are not modelled (\<open>None\<close>).
\<close>

fun error_message :: "error \<Rightarrow> jsstring option" where
  "error_message EventNameError = Some (ascii ''ibox: Event name must be a non-empty string'')"
| "error_message InstanceDestroyed = Some (ascii ''ibox: Instance destroyed'')"
| "error_message Busy = Some (ascii ''ibox: Busy'')"
| "error_message SendFailed = Some (ascii ''ibox: Send failed'')"
| "error_message HandlerNotFunction = Some (ascii ''ibox: Handler must be a function'')"
| "error_message ConnectionDestroyed = Some (ascii ''ibox: Connection destroyed'')"
| "error_message (RemoteError (JStr m)) = Some m"
| "error_message (Thrown (JError m)) = Some m"
| "error_message e = None"

section \<open>validateEvent\<close>

text \<open>
  Lines 17 to 22 of \<^verbatim>\<open>src/unnamed/part_000\<close>. The trimmed name is returned, and no
  caller uses it: \<^verbatim>\<open>emit\<close>, \<^verbatim>\<open>call\<close> and \<^verbatim>\<open>on\<close> go on with the name as it was passed.
\<close>

definition validateEvent :: "jsval \<Rightarrow> error + jsstring" where
  "validateEvent ev =
     (case ev of
        JStr s \<Rightarrow> if trim s = [] then Inl EventNameError else Inr (trim s)
      | _ \<Rightarrow> Inl EventNameError)"

section \<open>Envelopes, the port and the handlers\<close>

text \<open>
  The five properties that \<^verbatim>\<open>port.onmessage\<close> reads off \<^verbatim>\<open>e.data\<close>; a property that is
  absent reads as \<open>JUndefined\<close>. The fields \<open>ibox_id\<close>, \<open>ibox_res_id\<close> and \<open>ibox_error\<close>
  are the source's \<^verbatim>\<open>_ibox_id\<close>, \<^verbatim>\<open>_ibox_res_id\<close> and \<^verbatim>\<open>_ibox_error\<close>.
\<close>

record envelope =
  event :: jsval
  data :: jsval
  ibox_id :: jsval
  ibox_res_id :: jsval
  ibox_error :: jsval

text \<open>
  What arrives as \<^verbatim>\<open>e.data\<close>: an object, seen through those five properties, or any
  other value (all five read as undefined on a truthy one).
\<close>

datatype message = Object envelope | Plain jsval

fun message_truthy :: "message \<Rightarrow> bool" where
  "message_truthy (Object e) = True"
| "message_truthy (Plain v) = truthy v"

definition no_fields :: envelope where
  "no_fields = \<lparr>event = JUndefined, data = JUndefined, ibox_id = JUndefined,
                 ibox_res_id = JUndefined, ibox_error = JUndefined\<rparr>"

fun destructure :: "message \<Rightarrow> envelope" where
  "destructure (Object e) = e"
| "destructure (Plain v) = no_fields"

text \<open>
  A registered handler is foreign code. One invocation is known by how it ends and by
  what it does to the registry while it runs. It ends by returning a value that is not a
  promise, by throwing, or by returning a promise that is fulfilled, is rejected, or never
  settles.
\<close>

datatype outcome =
    Returns jsval
  | Throws jsval
  | Fulfils jsval
  | RejectsWith jsval
  | NeverSettles

text \<open>
  While it runs, that is before it returns, throws or reaches its first \<^verbatim>\<open>await\<close>, a
  handler may call \<^verbatim>\<open>on\<close> and \<^verbatim>\<open>off\<close> of the interface that invoked it (the function that
  \<^verbatim>\<open>on\<close> returned is such a call of \<^verbatim>\<open>off\<close>). These calls change the \<^verbatim>\<open>Set\<close> that the
  dispatcher may be iterating, so they are part of the dispatch. The other operations do
  not touch that \<^verbatim>\<open>Set\<close> (\<^verbatim>\<open>destroy\<close> clears the \<^verbatim>\<open>Map\<close>, not the \<^verbatim>\<open>Set\<close>s in it), and the
  dispatcher reads nothing else once it has invoked a handler. A handler's calls of
  \<^verbatim>\<open>emit\<close>, \<^verbatim>\<open>call\<close> and \<^verbatim>\<open>destroy\<close> are left to the run, as steps of their own that follow
  the message; a \<^verbatim>\<open>destroy\<close> in the middle of a dispatch, with calls of \<^verbatim>\<open>on\<close> or \<^verbatim>\<open>off\<close> after
  it in the same dispatch, is not described.
\<close>

datatype registration =
    Subscribes jsval jsval
  | Unsubscribes jsval jsval

text \<open>
  The environment of one step: \<open>postMessage env m = Some x\<close> when
  \<^verbatim>\<open>port.postMessage(m)\<close> throws \<open>x\<close> (a payload that cannot be cloned), \<open>None\<close> when
  it returns; \<open>handler env f d\<close> is how the function \<open>f\<close> ends on \<open>d\<close>, and
  \<open>reenters env f d\<close> are the calls of \<^verbatim>\<open>on\<close> and \<^verbatim>\<open>off\<close> it makes while it runs, in order.
\<close>

record env =
  postMessage :: "envelope \<Rightarrow> jsval option"
  handler :: "nat \<Rightarrow> jsval \<Rightarrow> outcome"
  reenters :: "nat \<Rightarrow> jsval \<Rightarrow> registration list"

datatype thrown = TypeError | Exn jsval

text \<open>
  What a step does to the outside, in order. \<open>Resolve c v\<close> and \<open>Reject c e\<close> are the
  calls of the \<^verbatim>\<open>resolve\<close> and \<^verbatim>\<open>reject\<close> functions of the promise that \<^verbatim>\<open>call\<close> number
  \<open>c\<close> returned; \<open>SetTimeout c t\<close> and \<open>ClearTimeout c\<close> concern the timer of that call.
  \<open>Unhandled x\<close>: the promise of the asynchronous \<^verbatim>\<open>onmessage\<close> is rejected with \<open>x\<close>,
  which nobody observes. \<open>Throw e\<close> and \<open>PromiseReject e\<close> are the results of an
  operation that throws, or returns \<^verbatim>\<open>Promise.reject(e)\<close>.
\<close>

datatype effect =
    PostMessage envelope
  | Invoke nat jsval
  | ConsoleError jsval jsval
  | Resolve nat jsval
  | Reject nat error
  | SetTimeout nat jsval
  | ClearTimeout nat
  | ClosePort
  | Unhandled thrown
  | Throw error
  | PromiseReject error

section \<open>The state of one interface\<close>

text \<open>
  An entry of \<^verbatim>\<open>pendingCalls\<close> is the pair of closures \<^verbatim>\<open>{resolve, reject}\<close>: they hold
  the timer they clear and the promise they settle, both of the call that made them.
\<close>

record pending =
  pc_timer :: nat
  pc_promise :: nat

text \<open>
  The variables \<^verbatim>\<open>createInterface\<close> closes over. Both \<^verbatim>\<open>Map\<close>s keep insertion order, so
  they are association lists; a \<^verbatim>\<open>Set\<close> of callbacks is a list in insertion order. Only
  functions are ever added to such a set (\<^verbatim>\<open>on\<close> checks), so its elements are function
  identities. Only values of the counter \<^verbatim>\<open>callId\<close> are ever keys of \<^verbatim>\<open>pendingCalls\<close>, so
  its keys are natural numbers; the counter stays far below \<open>2 ^ 53\<close>, where JavaScript
  numbers stop being exact. \<open>timers\<close> is the platform's table of the timers this interface has set
  and that have neither fired nor been cleared, with the \<^verbatim>\<open>event\<close> and \<^verbatim>\<open>timeout\<close> each
  callback closes over.
\<close>

record interface =
  handlers :: "(jsval \<times> nat list) list"
  pendingCalls :: "(nat \<times> pending) list"
  callId :: nat
  isDestroyed :: bool
  timers :: "(nat \<times> jsval \<times> jsval) list"

definition MAX_PENDING_CALLS :: nat where
  "MAX_PENDING_CALLS = 1000"

definition DEFAULT_TIMEOUT :: int where
  "DEFAULT_TIMEOUT = 10000"

definition createInterface :: interface where
  "createInterface =
     \<lparr>handlers = [], pendingCalls = [], callId = 0, isDestroyed = False, timers = []\<rparr>"

definition set_add :: "nat \<Rightarrow> nat list \<Rightarrow> nat list" where
  "set_add f cbs = (if f \<in> set cbs then cbs else cbs @ [f])"

fun set_delete :: "jsval \<Rightarrow> nat list \<Rightarrow> nat list" where
  "set_delete (JFun f) cbs = removeAll f cbs"
| "set_delete v cbs = cbs"

text \<open>The stored \<^verbatim>\<open>resolve\<close> and \<^verbatim>\<open>reject\<close>: clear the timer, then settle the promise.\<close>

definition p_resolve :: "pending \<Rightarrow> jsval \<Rightarrow> interface \<Rightarrow> interface \<times> effect list" where
  "p_resolve p res s =
     (s\<lparr>timers := AList.delete (pc_timer p) (timers s)\<rparr>,
      [ClearTimeout (pc_timer p), Resolve (pc_promise p) res])"

definition p_reject :: "pending \<Rightarrow> error \<Rightarrow> interface \<Rightarrow> interface \<times> effect list" where
  "p_reject p err s =
     (s\<lparr>timers := AList.delete (pc_timer p) (timers s)\<rparr>,
      [ClearTimeout (pc_timer p), Reject (pc_promise p) err])"

section \<open>The interface: emit, call, on, off, destroy\<close>

text \<open>Lines 67 to 71.\<close>

definition emit :: "env \<Rightarrow> jsval \<Rightarrow> jsval \<Rightarrow> interface \<Rightarrow> error + effect list" where
  "emit env ev d s =
     (if isDestroyed s then Inl InstanceDestroyed
      else case validateEvent ev of
        Inl err \<Rightarrow> Inl err
      | Inr name \<Rightarrow>
          (case postMessage env (no_fields\<lparr>event := ev, data := d\<rparr>) of
             Some x \<Rightarrow> Inl (Thrown x)
           | None \<Rightarrow> Inr [PostMessage (no_fields\<lparr>event := ev, data := d\<rparr>)]))"

text \<open>
  Lines 73 to 100. \<^verbatim>\<open>call\<close> throws, returns \<^verbatim>\<open>Promise.reject(err)\<close>, or returns the promise
  of the call with the new id; the executor of that promise runs inside \<^verbatim>\<open>call\<close>.
\<close>

datatype call_result = CallThrows error | CallRejected error | CallPromise nat

definition request :: "jsval \<Rightarrow> jsval \<Rightarrow> nat \<Rightarrow> envelope" where
  "request ev d c = no_fields\<lparr>event := ev, data := d, ibox_id := JNum (int c)\<rparr>"

definition call ::
  "env \<Rightarrow> jsval \<Rightarrow> jsval \<Rightarrow> jsval \<Rightarrow> interface \<Rightarrow> call_result \<times> interface \<times> effect list" where
  "call env ev d timeout s =
     (if isDestroyed s then (CallRejected InstanceDestroyed, s, [])
      else if length (pendingCalls s) \<ge> MAX_PENDING_CALLS then (CallRejected Busy, s, [])
      else case validateEvent ev of
        Inl err \<Rightarrow> (CallThrows err, s, [])
      | Inr name \<Rightarrow>
          (let t = (if timeout = JUndefined then JNum DEFAULT_TIMEOUT else timeout);
               c = callId s + 1;
               entry = \<lparr>pc_timer = c, pc_promise = c\<rparr>;
               closure = (ev, t);
               s1 = s\<lparr>callId := c\<rparr>
                     \<lparr>timers := AList.update c closure (timers s)\<rparr>
                     \<lparr>pendingCalls := AList.update c entry (pendingCalls s)\<rparr>
           in (case postMessage env (request ev d c) of
                 None \<Rightarrow> (CallPromise c, s1, [SetTimeout c t, PostMessage (request ev d c)])
               | Some x \<Rightarrow>
                   (CallPromise c,
                    s1\<lparr>pendingCalls := AList.delete c (pendingCalls s1)\<rparr>
                      \<lparr>timers := AList.delete c (timers s1)\<rparr>,
                    [SetTimeout c t, ClearTimeout c, Reject c SendFailed]))))"

text \<open>Lines 81 to 85: the callback of the timer that call number \<open>c\<close> set.\<close>

definition timer_callback :: "nat \<Rightarrow> jsval \<Rightarrow> jsval \<Rightarrow> interface \<Rightarrow> interface \<times> effect list" where
  "timer_callback c ev t s =
     (if map_of (pendingCalls s) c \<noteq> None
      then (s\<lparr>pendingCalls := AList.delete c (pendingCalls s)\<rparr>,
            [Reject c (Timeout ev t)])
      else (s, []))"

text \<open>
  The platform runs the callback of a timer once, and only when it has not been
  cleared.
\<close>

definition timer_fires :: "nat \<Rightarrow> interface \<Rightarrow> interface \<times> effect list" where
  "timer_fires c s =
     (case map_of (timers s) c of
        None \<Rightarrow> (s, [])
      | Some (ev, t) \<Rightarrow> timer_callback c ev t (s\<lparr>timers := AList.delete c (timers s)\<rparr>))"

text \<open>
  Lines 102 to 110. \<^verbatim>\<open>on\<close> returns the function \<^verbatim>\<open>() => api.off(event, cb)\<close>; the model
  returns the new state, and that function is \<open>off ev cb\<close>.
\<close>

definition on :: "jsval \<Rightarrow> jsval \<Rightarrow> interface \<Rightarrow> error + interface" where
  "on ev cb s =
     (case validateEvent ev of
        Inl err \<Rightarrow> Inl err
      | Inr name \<Rightarrow>
          (case cb of
             JFun f \<Rightarrow>
               Inr (s\<lparr>handlers :=
                      AList.update ev
                        (set_add f (case map_of (handlers s) ev of None \<Rightarrow> [] | Some cbs \<Rightarrow> cbs))
                        (handlers s)\<rparr>)
           | _ \<Rightarrow> Inl HandlerNotFunction))"

text \<open>Lines 112 to 117: no test of the name, none of the destroyed flag.\<close>

definition off :: "jsval \<Rightarrow> jsval \<Rightarrow> interface \<Rightarrow> interface" where
  "off ev cb s =
     (case map_of (handlers s) ev of
        None \<Rightarrow> s
      | Some cbs \<Rightarrow>
          if set_delete cb cbs = [] then s\<lparr>handlers := AList.delete ev (handlers s)\<rparr>
          else s\<lparr>handlers := AList.update ev (set_delete cb cbs) (handlers s)\<rparr>)"

text \<open>Lines 119 to 126. \<^verbatim>\<open>pendingCalls.forEach(p => p.reject(err))\<close> goes in insertion order.\<close>

fun reject_all :: "(nat \<times> pending) list \<Rightarrow> error \<Rightarrow> interface \<Rightarrow> interface \<times> effect list" where
  "reject_all [] err s = (s, [])"
| "reject_all (kp # ps) err s =
     (let (s1, fx1) = p_reject (snd kp) err s;
          (s2, fx2) = reject_all ps err s1
      in (s2, fx1 @ fx2))"

definition destroy :: "interface \<Rightarrow> interface \<times> effect list" where
  "destroy s =
     (if isDestroyed s then (s, [])
      else
        let (s1, fx) = reject_all (pendingCalls s) ConnectionDestroyed (s\<lparr>isDestroyed := True\<rparr>)
        in (s1\<lparr>pendingCalls := [], handlers := []\<rparr>, ClosePort # fx))"

section \<open>The dispatcher: port.onmessage\<close>

text \<open>
  \<^verbatim>\<open>pendingCalls.get(v)\<close> for any value \<open>v\<close>: an entry is found when \<open>v\<close> is the number
  that is its key.
\<close>

fun get_pending :: "(nat \<times> pending) list \<Rightarrow> jsval \<Rightarrow> (nat \<times> pending) option" where
  "get_pending pcs (JNum n) =
     (if 0 \<le> n then map_option (Pair (nat n)) (map_of pcs (nat n)) else None)"
| "get_pending pcs v = None"

text \<open>\<^verbatim>\<open>await firstHandler(data)\<close>: the value, the exception, or no resumption.\<close>

fun awaited :: "outcome \<Rightarrow> (jsval + jsval) option" where
  "awaited (Returns v) = Some (Inr v)"
| "awaited (Fulfils v) = Some (Inr v)"
| "awaited (Throws x) = Some (Inl x)"
| "awaited (RejectsWith x) = Some (Inl x)"
| "awaited NeverSettles = None"

text \<open>\<^verbatim>\<open>err.message\<close>; \<open>None\<close> when reading it throws a \<^verbatim>\<open>TypeError\<close>.\<close>

fun message_of :: "jsval \<Rightarrow> jsval option" where
  "message_of JUndefined = None"
| "message_of JNull = None"
| "message_of (JError m) = Some (JStr m)"
| "message_of v = Some JUndefined"

definition response :: "jsval \<Rightarrow> jsval \<Rightarrow> envelope" where
  "response rid result = no_fields\<lparr>ibox_res_id := rid, data := result\<rparr>"

definition error_response :: "jsval \<Rightarrow> jsval \<Rightarrow> envelope" where
  "error_response rid msg = no_fields\<lparr>ibox_res_id := rid, ibox_error := msg\<rparr>"

text \<open>The \<^verbatim>\<open>catch (err)\<close> block of the call mode.\<close>

definition catch_block :: "env \<Rightarrow> jsval \<Rightarrow> jsval \<Rightarrow> effect list" where
  "catch_block env rid err =
     (case message_of err of
        None \<Rightarrow> [Unhandled TypeError]
      | Some msg \<Rightarrow>
          (case postMessage env (error_response rid msg) of
             None \<Rightarrow> [PostMessage (error_response rid msg)]
           | Some x \<Rightarrow> [Unhandled (Exn x)]))"

text \<open>
  One call of \<^verbatim>\<open>on\<close> or \<^verbatim>\<open>off\<close> from inside a handler. When \<^verbatim>\<open>on\<close> throws, the state is as
  it was, and the exception is the handler's own affair.
\<close>

fun reentry :: "registration \<Rightarrow> interface \<Rightarrow> interface" where
  "reentry (Subscribes ev cb) s = (case on ev cb s of Inl err \<Rightarrow> s | Inr s1 \<Rightarrow> s1)"
| "reentry (Unsubscribes ev cb) s = off ev cb s"

text \<open>
  Call mode. \<^verbatim>\<open>firstHandler\<close> runs, and what it did to the registry stays. The
  continuation after \<^verbatim>\<open>await\<close> reads nothing of the interface, so its effects are listed
  with the step that starts it.
\<close>

definition first_runs :: "env \<Rightarrow> envelope \<Rightarrow> nat list \<Rightarrow> interface \<Rightarrow> interface" where
  "first_runs env e callbacks s =
     (case callbacks of
        [] \<Rightarrow> s
      | firstHandler # rest \<Rightarrow> fold reentry (reenters env firstHandler (data e)) s)"

definition call_mode :: "env \<Rightarrow> envelope \<Rightarrow> nat list \<Rightarrow> effect list" where
  "call_mode env e callbacks =
     (case callbacks of
        [] \<Rightarrow> []
      | firstHandler # rest \<Rightarrow>
          Invoke firstHandler (data e) #
          (case awaited (handler env firstHandler (data e)) of
             None \<Rightarrow> []
           | Some (Inl err) \<Rightarrow> catch_block env (ibox_id e) err
           | Some (Inr result) \<Rightarrow>
               (case postMessage env (response (ibox_id e) result) of
                  None \<Rightarrow> [PostMessage (response (ibox_id e) result)]
                | Some err \<Rightarrow> catch_block env (ibox_id e) err)))"

text \<open>Emit mode: \<^verbatim>\<open>try { cb(data); } catch (err) { console.error(...) }\<close> for each callback.\<close>

definition notify :: "env \<Rightarrow> envelope \<Rightarrow> nat \<Rightarrow> effect list" where
  "notify env e cb =
     Invoke cb (data e) #
     (case handler env cb (data e) of
        Throws err \<Rightarrow> [ConsoleError (event e) err]
      | _ \<Rightarrow> [])"

text \<open>
  The loop \<^verbatim>\<open>for (const cb of handlers.get(event))\<close> iterates the \<^verbatim>\<open>Set\<close> itself, not a
  copy: its iterator visits the entries in insertion order, skips an entry deleted
  before it is reached, and visits an entry added during the iteration, also one that was
  deleted and is added again. The loop is described by the callbacks the iterator has
  still to visit, in order, and by whether the \<^verbatim>\<open>Set\<close> it iterates is still the one the
  \<^verbatim>\<open>Map\<close> holds for the event. It no longer is once \<^verbatim>\<open>off\<close> has emptied it and deleted the
  key: a later \<^verbatim>\<open>on\<close> for the event makes a new \<^verbatim>\<open>Set\<close>, which this loop does not see.
\<close>

fun added :: "jsval \<Rightarrow> nat list \<Rightarrow> nat list" where
  "added (JFun f) cbs = (if f \<in> set cbs then [] else [f])"
| "added v cbs = []"

fun iterating ::
  "jsval \<Rightarrow> registration \<Rightarrow> interface \<times> nat list \<times> bool \<Rightarrow> interface \<times> nat list \<times> bool" where
  "iterating ev (Subscribes ev' cb) (s, todo, attached) =
     (case on ev' cb s of
        Inl err \<Rightarrow> (s, todo, attached)
      | Inr s1 \<Rightarrow>
          if attached \<and> ev' = ev
          then (s1,
                todo @ added cb (case map_of (handlers s) ev of None \<Rightarrow> [] | Some cbs \<Rightarrow> cbs),
                attached)
          else (s1, todo, attached))"
| "iterating ev (Unsubscribes ev' cb) (s, todo, attached) =
     (if attached \<and> ev' = ev
      then (off ev' cb s, set_delete cb todo, map_of (handlers (off ev' cb s)) ev \<noteq> None)
      else (off ev' cb s, todo, attached))"

text \<open>
  Emit mode. Nothing bounds the loop: a handler that unsubscribes and subscribes itself
  again is visited again, for ever. \<open>None\<close> is a dispatch that does not return.
\<close>

partial_function (option) emit_mode ::
  "env \<Rightarrow> envelope \<Rightarrow> interface \<times> nat list \<times> bool \<Rightarrow> effect list \<Rightarrow>
   (interface \<times> effect list) option" where
  "emit_mode env e loop fx =
     (case loop of
        (s, [], attached) \<Rightarrow> Some (s, fx)
      | (s, cb # rest, attached) \<Rightarrow>
          emit_mode env e
            (fold (iterating (event e)) (reenters env cb (data e)) (s, rest, attached))
            (fx @ notify env e cb))"

declare emit_mode.simps [code]

text \<open>
  Lines 30 to 64: the handler set on the port. It returns unless the loop of the emit
  mode runs for ever.
\<close>

definition onmessage ::
  "env \<Rightarrow> message \<Rightarrow> interface \<Rightarrow> (interface \<times> effect list) option" where
  "onmessage env m s =
     (if isDestroyed s \<or> \<not> message_truthy m then Some (s, [])
      else
        let e = destructure m in
        case (if truthy (ibox_res_id e) then get_pending (pendingCalls s) (ibox_res_id e)
              else None) of
          Some cp \<Rightarrow>
            let s1 = s\<lparr>pendingCalls := AList.delete (fst cp) (pendingCalls s)\<rparr> in
            if truthy (ibox_error e) then Some (p_reject (snd cp) (RemoteError (ibox_error e)) s1)
            else Some (p_resolve (snd cp) (data e) s1)
        | None \<Rightarrow>
            (case (if truthy (event e) then map_of (handlers s) (event e) else None) of
               Some callbacks \<Rightarrow>
                 if truthy (ibox_id e)
                 then Some (first_runs env e callbacks s, call_mode env e callbacks)
                 else emit_mode env e (s, callbacks, True) []
             | None \<Rightarrow> Some (s, [])))"

section \<open>Runs of an interface\<close>

text \<open>
  What can happen to an interface, one turn of the event loop at a time: a call of one
  of its five operations, a message on the port, a timer that fires.
\<close>

datatype action =
    Emit jsval jsval
  | Call jsval jsval jsval
  | On jsval jsval
  | Off jsval jsval
  | Destroy
  | Receive message
  | TimerFires nat

fun step :: "env \<Rightarrow> action \<Rightarrow> interface \<Rightarrow> (interface \<times> effect list) option" where
  "step env (Emit ev d) s =
     (case emit env ev d s of Inl err \<Rightarrow> Some (s, [Throw err]) | Inr fx \<Rightarrow> Some (s, fx))"
| "step env (Call ev d timeout) s =
     (case call env ev d timeout s of
        (CallThrows err, s1, fx) \<Rightarrow> Some (s1, fx @ [Throw err])
      | (CallRejected err, s1, fx) \<Rightarrow> Some (s1, fx @ [PromiseReject err])
      | (CallPromise c, s1, fx) \<Rightarrow> Some (s1, fx))"
| "step env (On ev cb) s =
     (case on ev cb s of Inl err \<Rightarrow> Some (s, [Throw err]) | Inr s1 \<Rightarrow> Some (s1, []))"
| "step env (Off ev cb) s = Some (off ev cb s, [])"
| "step env Destroy s = Some (destroy s)"
| "step env (Receive m) s = onmessage env m s"
| "step env (TimerFires c) s = Some (timer_fires c s)"

text \<open>A run ends where a step does not return: nothing happens after it.\<close>

fun exec :: "(env \<times> action) list \<Rightarrow> interface \<Rightarrow> (interface \<times> effect list) option" where
  "exec [] s = Some (s, [])"
| "exec (ea # rest) s =
     (case step (fst ea) (snd ea) s of
        None \<Rightarrow> None
      | Some (s1, fx1) \<Rightarrow>
          (case exec rest s1 of
             None \<Rightarrow> None
           | Some (s2, fx2) \<Rightarrow> Some (s2, fx1 @ fx2)))"

section \<open>The handshake\<close>

text \<open>
  Lines 133 to 205 of \<^verbatim>\<open>src/unnamed/part_000\<close>. Each side is a state machine over the
  messages of the window and its own timers; time is the order of these events, and the
  delays are the arguments of \<^verbatim>\<open>setTimeout\<close> and \<^verbatim>\<open>setInterval\<close>.
\<close>

definition MSG_READY :: jsval where
  "MSG_READY = JStr (ascii ''IBOX_READY'')"


definition wildcard :: jsval where
  "wildcard = JStr (ascii ''*'')"

text \<open>
  A \<^verbatim>\<open>message\<close> event of the window: \<^verbatim>\<open>e.origin\<close>, \<^verbatim>\<open>e.data\<close>, and whether
  \<^verbatim>\<open>e.ports && e.ports[0]\<close> is truthy.
\<close>

record bus_message =
  bus_origin :: jsval
  bus_data :: jsval
  bus_port :: bool

text \<open>
  The rejections of the handshake: \<^verbatim>\<open>'ibox: No iframe'\<close>,
  \<^verbatim>\<open>'ibox: Host connection timeout'\<close>, \<^verbatim>\<open>'ibox: Client connection timeout'\<close>,
  \<^verbatim>\<open>'ibox: Handshake failed'\<close>, and whatever the transfer of the port threw.
\<close>

datatype handshake_error =
    NoIframe
  | HostTimeout
  | ClientTimeout
  | HandshakeFailed
  | TransferFailed jsval

text \<open>
  The promise that \<^verbatim>\<open>host\<close> or \<^verbatim>\<open>client\<close> returns: pending, resolved with a new
  interface, or rejected. A promise keeps its first settlement.
\<close>

datatype handshake_result = Waiting | Connected | Failed handshake_error

datatype hs_effect =
    ConsoleWarn
  | SetTimeoutMs nat
  | SetIntervalMs nat
  | AddListener
  | RemoveListener
  | ClearTimer
  | ClearInterval
  | TransferPort jsval
  | StartPort
  | PostReady jsval
  | Swallowed jsval

definition warning :: "jsval \<Rightarrow> hs_effect list" where
  "warning origin = (if \<not> truthy origin \<or> origin = wildcard then [ConsoleWarn] else [])"

subsection \<open>host\<close>

text \<open>
  \<open>h_listening\<close>: the listener \<^verbatim>\<open>init\<close> is registered on the window; \<open>h_timer\<close>: the
  15000 ms timer is armed.
\<close>

record host_state =
  h_origin :: jsval
  h_listening :: bool
  h_timer :: bool
  h_result :: handshake_result

definition host_settle :: "handshake_result \<Rightarrow> host_state \<Rightarrow> host_state" where
  "host_settle r s = (if h_result s = Waiting then s\<lparr>h_result := r\<rparr> else s)"

text \<open>\<open>has_window\<close> is the truth of \<^verbatim>\<open>iframe?.contentWindow\<close>.\<close>

definition host :: "bool \<Rightarrow> jsval \<Rightarrow> host_state \<times> hs_effect list" where
  "host has_window targetOrigin =
     (if \<not> has_window
      then (\<lparr>h_origin = targetOrigin, h_listening = False, h_timer = False,
              h_result = Failed NoIframe\<rparr>,
            warning targetOrigin)
      else (\<lparr>h_origin = targetOrigin, h_listening = True, h_timer = True,
              h_result = Waiting\<rparr>,
            warning targetOrigin @ [SetTimeoutMs 15000, AddListener]))"

definition host_cleanup :: "host_state \<Rightarrow> host_state" where
  "host_cleanup s = s\<lparr>h_timer := False, h_listening := False\<rparr>"

definition host_timeout :: "host_state \<Rightarrow> host_state \<times> hs_effect list" where
  "host_timeout s =
     (host_settle (Failed HostTimeout) (host_cleanup s), [ClearTimer, RemoveListener])"

text \<open>
  The listener \<^verbatim>\<open>init\<close>. \<open>transfer = Some x\<close> when
  \<^verbatim>\<open>iframe.contentWindow.postMessage(MSG_PORT, targetOrigin, [channel.port2])\<close> throws
  \<open>x\<close>.
\<close>

definition init :: "jsval option \<Rightarrow> bus_message \<Rightarrow> host_state \<Rightarrow> host_state \<times> hs_effect list" where
  "init transfer e s =
     (if h_origin s \<noteq> wildcard \<and> bus_origin e \<noteq> h_origin s then (s, [])
      else if bus_data e \<noteq> MSG_READY then (s, [])
      else case transfer of
        None \<Rightarrow>
          (host_settle Connected (host_cleanup s),
           [ClearTimer, RemoveListener, TransferPort (h_origin s), StartPort])
      | Some x \<Rightarrow>
          (host_settle (Failed (TransferFailed x)) (host_cleanup s),
           [ClearTimer, RemoveListener]))"

text \<open>
  The platform calls a listener only while it is registered, and a timer callback only
  while the timer is armed.
\<close>

datatype host_event = HostBus "jsval option" bus_message | HostTimer

fun host_step :: "host_event \<Rightarrow> host_state \<Rightarrow> host_state \<times> hs_effect list" where
  "host_step (HostBus transfer e) s = (if h_listening s then init transfer e s else (s, []))"
| "host_step HostTimer s = (if h_timer s then host_timeout s else (s, []))"

fun host_run :: "host_event list \<Rightarrow> host_state \<Rightarrow> host_state \<times> hs_effect list" where
  "host_run [] s = (s, [])"
| "host_run (x # xs) s =
     (let (s1, fx1) = host_step x s;
          (s2, fx2) = host_run xs s1
      in (s2, fx1 @ fx2))"

text \<open>A bus message that \<^verbatim>\<open>init\<close> accepts, for the expected origin \<open>origin\<close>.\<close>

definition valid_ready :: "jsval \<Rightarrow> bus_message \<Rightarrow> bool" where
  "valid_ready origin e \<longleftrightarrow>
     (origin = wildcard \<or> bus_origin e = origin) \<and> bus_data e = MSG_READY"

fun host_discards :: "jsval \<Rightarrow> host_event \<Rightarrow> bool" where
  "host_discards origin (HostBus transfer e) = (\<not> valid_ready origin e)"
| "host_discards origin HostTimer = False"

subsection \<open>client\<close>















section \<open>Properties of states and runs\<close>

text \<open>An entry whose closures belong to the call that is its key.\<close>

definition own_entry :: "nat \<times> pending \<Rightarrow> bool" where
  "own_entry cp \<longleftrightarrow> pc_timer (snd cp) = fst cp \<and> pc_promise (snd cp) = fst cp"

text \<open>An event name that \<^verbatim>\<open>validateEvent\<close> accepts.\<close>

definition valid_name :: "jsval \<Rightarrow> bool" where
  "valid_name ev \<longleftrightarrow> (case ev of JStr name \<Rightarrow> trim name \<noteq> [] | _ \<Rightarrow> False)"

definition handlers_ok :: "(jsval \<times> nat list) list \<Rightarrow> bool" where
  "handlers_ok hs \<longleftrightarrow>
     distinct (map fst hs) \<and>
     list_all (\<lambda>kc. valid_name (fst kc) \<and> snd kc \<noteq> [] \<and> distinct (snd kc)) hs"

text \<open>\<^verbatim>\<open>set.has(cb)\<close> for a set of callbacks.\<close>

fun has_callback :: "jsval \<Rightarrow> nat list \<Rightarrow> bool" where
  "has_callback (JFun f) cbs = (f \<in> set cbs)"
| "has_callback v cbs = False"

text \<open>What holds of every state an interface can reach.\<close>

definition coherent :: "interface \<Rightarrow> bool" where
  "coherent s \<longleftrightarrow>
     distinct (map fst (pendingCalls s)) \<and>
     list_all (\<lambda>cp. 1 \<le> fst cp \<and> fst cp \<le> callId s \<and> own_entry cp) (pendingCalls s) \<and>
     map fst (timers s) = map fst (pendingCalls s) \<and>
     length (pendingCalls s) \<le> MAX_PENDING_CALLS \<and>
     (isDestroyed s \<longrightarrow> pendingCalls s = []) \<and>
     handlers_ok (handlers s)"

text \<open>Two states that differ in the handler registry at most.\<close>

definition same_calls :: "interface \<Rightarrow> interface \<Rightarrow> bool" where
  "same_calls s s' \<longleftrightarrow>
     pendingCalls s' = pendingCalls s \<and> callId s' = callId s \<and>
     isDestroyed s' = isDestroyed s \<and> timers s' = timers s"

text \<open>The calls of \<^verbatim>\<open>resolve\<close> or \<^verbatim>\<open>reject\<close> on the promise of call \<open>c\<close>.\<close>

fun settles :: "nat \<Rightarrow> effect \<Rightarrow> bool" where
  "settles c (Resolve c' v) = (c' = c)"
| "settles c (Reject c' err) = (c' = c)"
| "settles c x = False"

definition settled :: "nat \<Rightarrow> effect list \<Rightarrow> nat" where
  "settled c fx = length (filter (settles c) fx)"

text \<open>\<^verbatim>\<open>pendingCalls.has(c)\<close>.\<close>

definition is_pending :: "nat \<Rightarrow> interface \<Rightarrow> bool" where
  "is_pending c s \<longleftrightarrow> map_of (pendingCalls s) c \<noteq> None"

text \<open>Call \<open>c\<close> was made and its entry is gone.\<close>

definition finished :: "nat \<Rightarrow> interface \<Rightarrow> bool" where
  "finished c s \<longleftrightarrow> 1 \<le> c \<and> c \<le> callId s \<and> \<not> is_pending c s"

text \<open>
  The three events that settle a pending call \<open>c\<close>: a message whose \<^verbatim>\<open>_ibox_res_id\<close> is
  \<open>c\<close>, the timer of \<open>c\<close>, and \<^verbatim>\<open>destroy()\<close>.
\<close>

fun settling :: "nat \<Rightarrow> action \<Rightarrow> bool" where
  "settling c (Receive m) =
     (message_truthy m \<and> ibox_res_id (destructure m) = JNum (int c))"
| "settling c (TimerFires c') = (c' = c)"
| "settling c Destroy = True"
| "settling c a = False"

text \<open>The two tests of the dispatcher.\<close>

definition matching :: "interface \<Rightarrow> envelope \<Rightarrow> (nat \<times> pending) option" where
  "matching s e =
     (if truthy (ibox_res_id e) then get_pending (pendingCalls s) (ibox_res_id e) else None)"

definition registered :: "interface \<Rightarrow> envelope \<Rightarrow> nat list option" where
  "registered s e = (if truthy (event e) then map_of (handlers s) (event e) else None)"

definition timeout_of :: "jsval \<Rightarrow> jsval" where
  "timeout_of t = (if t = JUndefined then JNum DEFAULT_TIMEOUT else t)"

definition bookkeeping :: "nat \<Rightarrow> interface \<Rightarrow> interface \<Rightarrow> effect list \<Rightarrow> bool" where
  "bookkeeping c s s' fx \<longleftrightarrow>
     callId s \<le> callId s' \<and>
     settled c fx = (if finished c s' \<and> \<not> finished c s then 1 else 0) \<and>
     (finished c s \<longrightarrow> finished c s')"

text \<open>The handler invocations, the diagnostics and the envelopes sent, read off the effects.\<close>

fun invocations :: "effect list \<Rightarrow> (nat \<times> jsval) list" where
  "invocations [] = []"
| "invocations (Invoke f d # fx) = (f, d) # invocations fx"
| "invocations (x # fx) = invocations fx"

fun diagnostics :: "effect list \<Rightarrow> (jsval \<times> jsval) list" where
  "diagnostics [] = []"
| "diagnostics (ConsoleError ev err # fx) = (ev, err) # diagnostics fx"
| "diagnostics (x # fx) = diagnostics fx"

fun sent :: "effect list \<Rightarrow> envelope list" where
  "sent [] = []"
| "sent (PostMessage m # fx) = m # sent fx"
| "sent (x # fx) = sent fx"

text \<open>
  The effects of visiting one callback, written out: the invocation, and one
  \<^verbatim>\<open>console.error\<close> when the callback throws synchronously.
\<close>

definition visit :: "env \<Rightarrow> envelope \<Rightarrow> nat \<Rightarrow> effect list" where
  "visit env e cb =
     (case handler env cb (data e) of
        Throws err \<Rightarrow> [Invoke cb (data e), ConsoleError (event e) err]
      | Returns v \<Rightarrow> [Invoke cb (data e)]
      | Fulfils v \<Rightarrow> [Invoke cb (data e)]
      | RejectsWith err \<Rightarrow> [Invoke cb (data e)]
      | NeverSettles \<Rightarrow> [Invoke cb (data e)])"

text \<open>A call of \<^verbatim>\<open>on\<close> or \<^verbatim>\<open>off\<close> for the event \<open>ev\<close>, and a call of \<^verbatim>\<open>on\<close> for it.\<close>

fun concerns :: "jsval \<Rightarrow> registration \<Rightarrow> bool" where
  "concerns ev (Subscribes ev' cb) = (ev' = ev)"
| "concerns ev (Unsubscribes ev' cb) = (ev' = ev)"

fun subscribes :: "jsval \<Rightarrow> registration \<Rightarrow> bool" where
  "subscribes ev (Subscribes ev' cb) = (ev' = ev)"
| "subscribes ev (Unsubscribes ev' cb) = False"

text \<open>
  None of the callbacks \<open>cbs\<close>, run on the payload of \<open>e\<close>, makes a call for the event of
  \<open>e\<close> that satisfies \<open>P\<close>.
\<close>

definition refrain :: "(jsval \<Rightarrow> registration \<Rightarrow> bool) \<Rightarrow> env \<Rightarrow> envelope \<Rightarrow> nat list \<Rightarrow> bool" where
  "refrain P env e cbs \<longleftrightarrow>
     list_all (\<lambda>cb. list_all (\<lambda>r. \<not> P (event e) r) (reenters env cb (data e))) cbs"

text \<open>What all of \<open>cbs\<close> do to the registry, one after the other.\<close>

definition reentries :: "env \<Rightarrow> envelope \<Rightarrow> nat list \<Rightarrow> registration list" where
  "reentries env e cbs = concat (map (\<lambda>cb. reenters env cb (data e)) cbs)"

section \<open>Sample data\<close>

text \<open>Concrete values, environments and runs, for the instances of the theorems.\<close>

definition ping :: jsval where
  "ping = JStr (ascii ''ping'')"

text \<open>
  A port that accepts every envelope, and handlers that return \<^verbatim>\<open>undefined\<close> and leave the
  registry alone.
\<close>

definition quiet :: env where
  "quiet =
     \<lparr>postMessage = (\<lambda>m. None), handler = (\<lambda>f d. Returns JUndefined),
      reenters = (\<lambda>f d. [])\<rparr>"

definition calls :: "nat \<Rightarrow> (env \<times> action) list" where
  "calls n = replicate n (quiet, Call ping JNull JUndefined)"

definition after_calls :: "nat \<Rightarrow> interface" where
  "after_calls n =
     \<lparr>handlers = [],
      pendingCalls = map (\<lambda>c. (c, \<lparr>pc_timer = c, pc_promise = c\<rparr>)) [1..<Suc n],
      callId = n, isDestroyed = False,
      timers = map (\<lambda>c. (c, ping, JNum DEFAULT_TIMEOUT)) [1..<Suc n]\<rparr>"

text \<open>What the first \<open>n\<close> of these calls do: each sets its timer and posts its request.\<close>

definition requests :: "nat \<Rightarrow> effect list" where
  "requests n =
     concat (map (\<lambda>c. [SetTimeout c (JNum DEFAULT_TIMEOUT), PostMessage (request ping JNull c)])
               [1..<Suc n])"

text \<open>One call that nothing answers; and what a caller may still do after \<^verbatim>\<open>destroy\<close>.\<close>

definition once :: "(env \<times> action) list" where
  "once = [(quiet, Call ping JNull JUndefined)]"

definition later :: "(env \<times> action) list" where
  "later = [(quiet, On ping (JFun 0)), (quiet, Destroy)]"

text \<open>Origins and bus traffic for the handshakes.\<close>

definition child_origin :: jsval where
  "child_origin = JStr (ascii ''https://child.example'')"

definition other_origin :: jsval where
  "other_origin = JStr (ascii ''https://other.example'')"

definition stray_messages :: "host_event list" where
  "stray_messages =
     [HostBus None \<lparr>bus_origin = other_origin, bus_data = MSG_READY, bus_port = False\<rparr>,
      HostBus None \<lparr>bus_origin = child_origin, bus_data = JStr (ascii ''hello''), bus_port = False\<rparr>]"





text \<open>
  The response to call 1 that the dispatcher of the peer sends when its handler throws
  \<^verbatim>\<open>new Error('')\<close>.
\<close>

definition empty_error_reply :: envelope where
  "empty_error_reply = error_response (JNum 1) (JStr [])"

text \<open>Two handlers registered for \<^verbatim>\<open>'ping'\<close>, in this order.\<close>

definition registrations :: "(env \<times> action) list" where
  "registrations = [(quiet, On ping (JFun 0)), (quiet, On ping (JFun 1))]"

definition two_handlers :: interface where
  "two_handlers =
     \<lparr>handlers = [(ping, [0, 1])], pendingCalls = [], callId = 0, isDestroyed = False,
      timers = []\<rparr>"

text \<open>A fire-and-forget envelope and a request.\<close>

definition notice :: envelope where
  "notice = no_fields\<lparr>event := ping, data := JNum 7\<rparr>"

definition question :: envelope where
  "question = request ping (JNum 7) 5"

text \<open>
  A port under the structured clone algorithm, which refuses a function as payload;
  the handlers return a function.
\<close>

definition clone_error :: jsval where
  "clone_error = JError (ascii ''could not be cloned'')"

definition cloning :: env where
  "cloning =
     \<lparr>postMessage = (\<lambda>m. if is_function (data m) then Some clone_error else None),
      handler = (\<lambda>f d. Returns (JFun 7)), reenters = (\<lambda>f d. [])\<rparr>"

text \<open>Handler 0 fails, the others return their argument.\<close>

definition failing :: "outcome \<Rightarrow> env" where
  "failing out =
     \<lparr>postMessage = (\<lambda>m. None), handler = (\<lambda>f d. if f = 0 then out else Returns d),
      reenters = (\<lambda>f d. [])\<rparr>"

text \<open>
  Handler 0 makes the given calls of \<^verbatim>\<open>on\<close> and \<^verbatim>\<open>off\<close> while it runs; every handler returns
  its argument.
\<close>

definition doing :: "registration list \<Rightarrow> env" where
  "doing rs =
     \<lparr>postMessage = (\<lambda>m. None), handler = (\<lambda>f d. Returns d),
      reenters = (\<lambda>f d. if f = 0 then rs else [])\<rparr>"

text \<open>An interface destroyed right after its creation.\<close>

definition destroyed :: interface where
  "destroyed = createInterface\<lparr>isDestroyed := True\<rparr>"

text \<open>An event name with blanks around it.\<close>

definition padded :: jsval where
  "padded = JStr (ascii '' a '')"

section \<open>Auxiliary facts\<close>

subsection \<open>Association lists\<close>

lemma update_fresh: "k \<notin> set (map fst xs) \<Longrightarrow> AList.update k v xs = xs @ [(k, v)]"
  by (induction xs) auto

lemma delete_append_fresh:
  "k \<notin> set (map fst xs) \<Longrightarrow> AList.delete k (xs @ [(k, v)]) = xs"
  by (induction xs) auto

lemma delete_set: "set (AList.delete k xs) = {kv \<in> set xs. fst kv \<noteq> k}"
  by (auto simp: AList.delete_eq)

lemma list_all_delete: "list_all P xs \<Longrightarrow> list_all P (AList.delete k xs)"
  by (auto simp: list_all_iff delete_set)

subsection \<open>The invariant\<close>

text \<open>Every operation keeps \<open>coherent\<close>, so every run does.\<close>

lemma validate_valid: "validateEvent ev = Inr name \<Longrightarrow> valid_name ev"
  by (auto simp: validateEvent_def valid_name_def split: jsval.splits if_splits)

lemma coherent_create: "coherent createInterface"
  by (simp add: coherent_def createInterface_def handlers_ok_def MAX_PENDING_CALLS_def)

lemma fresh_id: "coherent s \<Longrightarrow> Suc (callId s) \<notin> set (map fst (pendingCalls s))"
  by (auto simp: coherent_def list_all_iff)

lemma coherent_call:
  assumes "coherent s" and "call env ev d t s = (r, s', fx)"
  shows "coherent s'"
proof -
  note f = fresh_id[OF assms(1)]
  have ft: "Suc (callId s) \<notin> set (map fst (timers s))"
    using f assms(1) by (simp add: coherent_def)
  have mono: "list_all (\<lambda>cp. 1 \<le> fst cp \<and> fst cp \<le> Suc (callId s) \<and> own_entry cp) (pendingCalls s)"
    using assms(1) by (auto simp: coherent_def list_all_iff)
  show ?thesis
    using assms f ft mono
    by (auto simp: call_def Let_def coherent_def update_fresh delete_append_fresh own_entry_def
        split: if_splits sum.splits option.splits)
qed

lemma settled_Nil [simp]: "settled c [] = 0"
  by (simp add: settled_def)

lemma settled_append [simp]: "settled c (xs @ ys) = settled c xs + settled c ys"
  by (simp add: settled_def)

lemma settled_Cons: "settled c (x # xs) = (if settles c x then 1 else 0) + settled c xs"
  by (simp add: settled_def)

lemma is_pending_keys: "is_pending c s \<longleftrightarrow> c \<in> set (map fst (pendingCalls s))"
  by (auto simp: is_pending_def map_of_eq_None_iff)

lemma pending_range: "coherent s \<Longrightarrow> is_pending c s \<Longrightarrow> 1 \<le> c \<and> c \<le> callId s"
  by (auto simp: coherent_def is_pending_keys list_all_iff)

lemma pending_lookup:
  "coherent s \<Longrightarrow> map_of (pendingCalls s) c = Some p \<Longrightarrow> pc_timer p = c \<and> pc_promise p = c"
  by (auto simp: coherent_def list_all_iff own_entry_def dest!: map_of_SomeD)

lemma timer_keys: "coherent s \<Longrightarrow> fst ` set (timers s) = fst ` set (pendingCalls s)"
  unfolding coherent_def by (metis list.set_map)

lemma timer_lookup: "coherent s \<Longrightarrow> (map_of (timers s) c \<noteq> None) = is_pending c s"
  by (simp add: timer_keys is_pending_def map_of_eq_None_iff)

lemma get_pending_Some:
  "get_pending pcs v = Some cp \<Longrightarrow> v = JNum (int (fst cp)) \<and> map_of pcs (fst cp) = Some (snd cp)"
  by (cases v) (auto split: if_splits)

lemma coherent_delete:
  assumes "coherent s"
  shows "coherent (s\<lparr>pendingCalls := AList.delete c (pendingCalls s), timers := AList.delete c (timers s)\<rparr>)"
  using assms
  by (auto simp: coherent_def AList.delete_keys distinct_removeAll list_all_delete
      intro: order_trans[OF AList.length_delete_le])

lemma coherent_delete':
  assumes "coherent s"
  shows "coherent (s\<lparr>timers := AList.delete c (timers s), pendingCalls := AList.delete c (pendingCalls s)\<rparr>)"
  using assms
  by (auto simp: coherent_def AList.delete_keys distinct_removeAll list_all_delete
      intro: order_trans[OF AList.length_delete_le])

lemma coherent_timer_fires:
  assumes "coherent s" and "timer_fires c s = (s', fx)"
  shows "coherent s'"
proof -
  show ?thesis
    using assms coherent_delete'[OF assms(1), of c] timer_lookup[OF assms(1), of c]
    by (auto simp: timer_fires_def timer_callback_def is_pending_def split: option.splits if_splits)
qed

lemma update_set_subset: "set (AList.update k v xs) \<subseteq> insert (k, v) (set xs)"
  by (induction xs) auto

lemma list_all_update: "list_all P xs \<Longrightarrow> P (k, v) \<Longrightarrow> list_all P (AList.update k v xs)"
  using update_set_subset[of k v xs] by (auto simp: list_all_iff)

lemma handlers_ok_lookup:
  "handlers_ok hs \<Longrightarrow> map_of hs ev = Some cbs \<Longrightarrow> valid_name ev \<and> cbs \<noteq> [] \<and> distinct cbs"
  by (auto simp: handlers_ok_def list_all_iff dest!: map_of_SomeD)

lemma distinct_set_add: "distinct cbs \<Longrightarrow> distinct (set_add f cbs)"
  by (simp add: set_add_def)

lemma set_add_nonempty: "set_add f cbs \<noteq> []"
  by (auto simp: set_add_def)

lemma distinct_set_delete: "distinct cbs \<Longrightarrow> distinct (set_delete cb cbs)"
  by (cases cb) (simp_all add: distinct_removeAll)

lemma handlers_ok_on:
  assumes "handlers_ok hs" and "valid_name ev"
  shows "handlers_ok (AList.update ev (set_add f (case map_of hs ev of None \<Rightarrow> [] | Some cbs \<Rightarrow> cbs)) hs)"
proof -
  have "distinct (case map_of hs ev of None \<Rightarrow> [] | Some cbs \<Rightarrow> cbs)"
    using handlers_ok_lookup[OF assms(1)] by (auto split: option.splits)
  then show ?thesis
    using assms
    by (auto simp: handlers_ok_def AList.distinct_update distinct_set_add set_add_nonempty
        intro!: list_all_update)
qed

lemma handlers_ok_off:
  assumes "handlers_ok hs"
  shows "handlers_ok (handlers (off ev cb (s\<lparr>handlers := hs\<rparr>)))"
  using assms handlers_ok_lookup[OF assms, of ev]
  by (auto simp: off_def handlers_ok_def AList.distinct_update AList.distinct_delete
      list_all_delete distinct_set_delete intro!: list_all_update split: option.splits)

lemma coherent_on:
  assumes "coherent s" and "on ev cb s = Inr s'"
  shows "coherent s'"
  using assms
  by (auto simp: on_def coherent_def handlers_ok_on validate_valid split: sum.splits jsval.splits)

lemma coherent_off:
  assumes "coherent s"
  shows "coherent (off ev cb s)"
proof -
  have "handlers_ok (handlers (off ev cb s))"
    using handlers_ok_off[of "handlers s" ev cb s] assms by (simp add: coherent_def)
  moreover have "pendingCalls (off ev cb s) = pendingCalls s" "timers (off ev cb s) = timers s"
    "callId (off ev cb s) = callId s" "isDestroyed (off ev cb s) = isDestroyed s"
    by (simp_all add: off_def split: option.splits)
  ultimately show ?thesis
    using assms by (simp add: coherent_def)
qed

lemma reject_all_eq:
  "reject_all ps err s =
     (s\<lparr>timers := fold (\<lambda>kp ts. AList.delete (pc_timer (snd kp)) ts) ps (timers s)\<rparr>,
      concat (map (\<lambda>kp. [ClearTimeout (pc_timer (snd kp)), Reject (pc_promise (snd kp)) err]) ps))"
  by (induction ps arbitrary: s) (auto simp: p_reject_def split: prod.splits)

lemma fold_delete_keys:
  "map fst (fold (\<lambda>kp ts. AList.delete (f kp) ts) ps ts) = filter (\<lambda>k. k \<notin> f ` set ps) (map fst ts)"
proof (induction ps arbitrary: ts)
  case Nil
  then show ?case by simp
next
  case (Cons p ps)
  show ?case
    by (auto simp: Cons.IH AList.delete_keys removeAll_filter_not_eq intro!: filter_cong)
qed

lemma destroy_timers:
  assumes "coherent s"
  shows "fold (\<lambda>kp ts. AList.delete (pc_timer (snd kp)) ts) (pendingCalls s) (timers s) = []"
proof -
  have own: "\<forall>kp \<in> set (pendingCalls s). pc_timer (snd kp) = fst kp"
    using assms by (auto simp: coherent_def list_all_iff own_entry_def)
  have "map fst (fold (\<lambda>kp ts. AList.delete (pc_timer (snd kp)) ts) (pendingCalls s) (timers s)) = []"
    unfolding fold_delete_keys using own timer_keys[OF assms]
    by (auto simp: filter_empty_conv image_iff)
  then show ?thesis by simp
qed

lemma destroy_eq:
  assumes "coherent s" "\<not> isDestroyed s"
  shows "destroy s =
     (s\<lparr>isDestroyed := True, timers := [], pendingCalls := [], handlers := []\<rparr>,
      ClosePort # concat (map (\<lambda>kp. [ClearTimeout (fst kp), Reject (fst kp) ConnectionDestroyed]) (pendingCalls s)))"
proof -
  have own: "\<forall>kp \<in> set (pendingCalls s). pc_timer (snd kp) = fst kp \<and> pc_promise (snd kp) = fst kp"
    using assms by (auto simp: coherent_def list_all_iff own_entry_def)
  then have "map (\<lambda>kp. [ClearTimeout (pc_timer (snd kp)), Reject (pc_promise (snd kp)) ConnectionDestroyed]) (pendingCalls s)
      = map (\<lambda>kp. [ClearTimeout (fst kp), Reject (fst kp) ConnectionDestroyed]) (pendingCalls s)"
    by simp
  then show ?thesis
    using assms(2) destroy_timers[OF assms(1)]
    by (simp add: destroy_def reject_all_eq del: map_eq_conv)
qed

lemma coherent_destroy:
  assumes "coherent s" and "destroy s = (s', fx)"
  shows "coherent s'"
proof (cases "isDestroyed s")
  case True
  with assms show ?thesis by (simp add: destroy_def)
next
  case False
  from destroy_eq[OF assms(1) False] assms(2) show ?thesis
    by (auto simp: coherent_def handlers_ok_def MAX_PENDING_CALLS_def)
qed

subsection \<open>Handlers that subscribe and unsubscribe\<close>

text \<open>
  What a handler does while it runs changes the registry and nothing else, and a
  dispatch in emit mode that returns has produced the notifications of the callbacks it
  visited, one after the other.
\<close>

lemma same_calls_refl [simp]: "same_calls s s"
  by (simp add: same_calls_def)

lemma same_calls_trans: "same_calls s s1 \<Longrightarrow> same_calls s1 s2 \<Longrightarrow> same_calls s s2"
  by (simp add: same_calls_def)

lemma same_calls_reentry: "same_calls s (reentry r s)"
  by (cases r) (auto simp: same_calls_def on_def off_def split: sum.splits jsval.splits option.splits)

lemma coherent_reentry: "coherent s \<Longrightarrow> coherent (reentry r s)"
  by (cases r) (auto simp: coherent_off dest: coherent_on split: sum.splits)

lemma same_calls_fold: "same_calls s (fold reentry rs s)"
proof (induction rs arbitrary: s)
  case Nil
  show ?case by simp
next
  case (Cons r rs)
  show ?case using same_calls_trans[OF same_calls_reentry Cons.IH] by simp
qed

lemma coherent_fold: "coherent s \<Longrightarrow> coherent (fold reentry rs s)"
  by (induction rs arbitrary: s) (simp_all add: coherent_reentry)

lemma iterating_state: "fst (iterating ev r loop) = reentry r (fst loop)"
  by (cases loop; cases r) (auto split: sum.splits)

lemma fold_iterating_state: "fst (fold (iterating ev) rs loop) = fold reentry rs (fst loop)"
  by (induction rs arbitrary: loop) (simp_all add: iterating_state)

lemma emit_mode_result:
  assumes "emit_mode env e loop fx = Some y"
  shows "(\<exists>visited. snd y = fx @ concat (map (notify env e) visited)) \<and>
     same_calls (fst loop) (fst y) \<and> (coherent (fst loop) \<longrightarrow> coherent (fst y))"
  using assms
proof (induction rule: emit_mode.raw_induct[rotated, consumes 1])
  case (1 f env e loop fx y)
  obtain s todo attached where loop: "loop = (s, todo, attached)" by (cases loop) auto
  show ?case
  proof (cases todo)
    case Nil
    with 1(2) loop have "y = (s, fx)" by simp
    then have "snd y = fx @ concat (map (notify env e) [])" "same_calls (fst loop) (fst y)"
      "coherent (fst loop) \<longrightarrow> coherent (fst y)"
      by (simp_all add: loop)
    then show ?thesis by blast
  next
    case (Cons cb rest)
    let ?next = "fold (iterating (event e)) (reenters env cb (data e)) (s, rest, attached)"
    from 1(2) loop Cons have "f env e ?next (fx @ notify env e cb) = Some y" by simp
    from 1(1)[OF this] obtain visited where
      v: "snd y = (fx @ notify env e cb) @ concat (map (notify env e) visited)"
      and sc: "same_calls (fst ?next) (fst y)" and co: "coherent (fst ?next) \<longrightarrow> coherent (fst y)"
      by blast
    have n: "fst ?next = fold reentry (reenters env cb (data e)) s"
      by (simp add: fold_iterating_state)
    have "snd y = fx @ concat (map (notify env e) (cb # visited))" using v by simp
    moreover have "same_calls s (fst ?next)" unfolding n by (rule same_calls_fold)
    then have "same_calls (fst loop) (fst y)"
      using sc loop by (auto intro: same_calls_trans)
    moreover have "coherent (fst loop) \<longrightarrow> coherent (fst y)"
      using co n loop coherent_fold by simp
    ultimately show ?thesis by blast
  qed
qed

lemma same_calls_first_runs: "same_calls s (first_runs env e cbs s)"
  by (cases cbs) (simp_all add: first_runs_def same_calls_fold)

lemma coherent_first_runs: "coherent s \<Longrightarrow> coherent (first_runs env e cbs s)"
  by (cases cbs) (simp_all add: first_runs_def coherent_fold)

subsection \<open>The branches of the dispatcher and of call\<close>

text \<open>One equation for each branch, and what each branch settles.\<close>

lemma settled_call_mode [simp]: "settled c (call_mode env e cbs) = 0"
  by (auto simp: call_mode_def catch_block_def settled_Cons split: list.splits option.splits sum.splits)

lemma settled_notify [simp]: "settled c (notify env e cb) = 0"
  by (simp add: notify_def settled_Cons split: outcome.splits)

lemma settled_visited [simp]: "settled c (concat (map (notify env e) cbs)) = 0"
  by (induction cbs) simp_all

lemma settled_destroy:
  "distinct (map fst ps) \<Longrightarrow>
   settled c (concat (map (\<lambda>kp. [ClearTimeout (fst kp), Reject (fst kp) err]) ps)) =
     (if c \<in> set (map fst ps) then 1 else 0)"
  by (induction ps) (auto simp: settled_Cons)

lemma not_destroyed: "coherent s \<Longrightarrow> is_pending c s \<Longrightarrow> \<not> isDestroyed s"
  by (auto simp: coherent_def is_pending_def)

lemma onmessage_response:
  assumes "\<not> isDestroyed s" "message_truthy m" "matching s (destructure m) = Some cp"
  shows "onmessage env m s =
     Some (s\<lparr>pendingCalls := AList.delete (fst cp) (pendingCalls s),
             timers := AList.delete (pc_timer (snd cp)) (timers s)\<rparr>,
           [ClearTimeout (pc_timer (snd cp)),
            if truthy (ibox_error (destructure m))
            then Reject (pc_promise (snd cp)) (RemoteError (ibox_error (destructure m)))
            else Resolve (pc_promise (snd cp)) (data (destructure m))])"
  using assms by (simp add: onmessage_def Let_def p_reject_def p_resolve_def matching_def)

lemma onmessage_event:
  assumes "\<not> isDestroyed s" "message_truthy m" "matching s (destructure m) = None"
  shows "onmessage env m s =
     (case registered s (destructure m) of
        None \<Rightarrow> Some (s, [])
      | Some callbacks \<Rightarrow>
          if truthy (ibox_id (destructure m))
          then Some (first_runs env (destructure m) callbacks s,
                     call_mode env (destructure m) callbacks)
          else emit_mode env (destructure m) (s, callbacks, True) [])"
  using assms by (simp add: onmessage_def Let_def matching_def registered_def split: option.splits)

lemma matching_Some:
  assumes "coherent s" "matching s e = Some cp"
  shows "ibox_res_id e = JNum (int (fst cp)) \<and> is_pending (fst cp) s \<and>
         pc_timer (snd cp) = fst cp \<and> pc_promise (snd cp) = fst cp"
proof -
  from assms(2) have g: "get_pending (pendingCalls s) (ibox_res_id e) = Some cp"
    by (simp add: matching_def split: if_splits)
  from get_pending_Some[OF g] pending_lookup[OF assms(1)] show ?thesis
    by (auto simp: is_pending_def)
qed

lemma onmessage_event_result:
  assumes "\<not> isDestroyed s" "message_truthy m" "matching s (destructure m) = None"
    and "onmessage env m s = Some (s', fx)"
  shows "same_calls s s' \<and> settled c fx = 0 \<and> (coherent s \<longrightarrow> coherent s')"
proof (cases "registered s (destructure m)")
  case None
  with onmessage_event[OF assms(1-3), of env] assms(4) show ?thesis by simp
next
  case (Some callbacks)
  show ?thesis
  proof (cases "truthy (ibox_id (destructure m))")
    case True
    with onmessage_event[OF assms(1-3), of env] assms(4) Some
    have "s' = first_runs env (destructure m) callbacks s"
      "fx = call_mode env (destructure m) callbacks"
      by simp_all
    then show ?thesis by (simp add: same_calls_first_runs coherent_first_runs)
  next
    case False
    with onmessage_event[OF assms(1-3), of env] assms(4) Some
    have "emit_mode env (destructure m) (s, callbacks, True) [] = Some (s', fx)" by simp
    from emit_mode_result[OF this] show ?thesis by auto
  qed
qed

lemma coherent_onmessage:
  assumes "coherent s" and "onmessage env m s = Some (s', fx)"
  shows "coherent s'"
proof (cases "isDestroyed s \<or> \<not> message_truthy m")
  case True
  with assms show ?thesis by (simp add: onmessage_def)
next
  case False
  then have nd: "\<not> isDestroyed s" and tr: "message_truthy m" by auto
  show ?thesis
  proof (cases "matching s (destructure m)")
    case None
    from onmessage_event_result[OF nd tr None assms(2), of 0] assms(1) show ?thesis by simp
  next
    case (Some cp)
    note k = matching_Some[OF assms(1) Some]
    from onmessage_response[OF nd tr Some, of env] assms(2) k coherent_delete[OF assms(1), of "fst cp"]
    show ?thesis by auto
  qed
qed

lemma coherent_step:
  assumes "coherent s" and "step env a s = Some (s', fx)"
  shows "coherent s'"
proof (cases a)
  case (Emit ev d)
  with assms show ?thesis by (auto split: sum.splits)
next
  case (Call ev d t)
  with assms show ?thesis
    by (auto split: prod.splits call_result.splits dest: coherent_call)
next
  case (On ev cb)
  with assms show ?thesis by (auto split: sum.splits dest: coherent_on)
next
  case (Off ev cb)
  with assms show ?thesis by (auto simp: coherent_off)
next
  case Destroy
  with assms show ?thesis by (auto dest: coherent_destroy)
next
  case (Receive m)
  with assms show ?thesis by (auto dest: coherent_onmessage)
next
  case (TimerFires c)
  with assms show ?thesis by (auto dest: coherent_timer_fires)
qed

lemma exec_Cons:
  "exec (ea # tr) s = Some (s', fx) \<longleftrightarrow>
     (\<exists>s1 fx1 fx2. step (fst ea) (snd ea) s = Some (s1, fx1) \<and> exec tr s1 = Some (s', fx2) \<and>
        fx = fx1 @ fx2)"
  by (auto split: option.splits)

lemma coherent_exec: "coherent s \<Longrightarrow> exec tr s = Some (s', fx) \<Longrightarrow> coherent s'"
proof (induction tr arbitrary: s s' fx)
  case Nil
  then show ?case by simp
next
  case (Cons ea tr)
  from Cons.prems(2) obtain s1 fx1 fx2 where
    "step (fst ea) (snd ea) s = Some (s1, fx1)" "exec tr s1 = Some (s', fx2)"
    unfolding exec_Cons by blast
  with Cons.IH coherent_step[OF Cons.prems(1)] show ?case by blast
qed

lemma onmessage_settle:
  assumes "coherent s" and "onmessage env m s = Some (s', fx)"
  shows "callId s' = callId s \<and>
    ((pendingCalls s' = pendingCalls s \<and> (settled c fx = 0)) \<or>
     (\<exists>c'. is_pending c' s \<and> message_truthy m \<and> ibox_res_id (destructure m) = JNum (int c') \<and>
        pendingCalls s' = AList.delete c' (pendingCalls s) \<and>
        (settled c fx = (if c = c' then 1 else 0))))"
proof (cases "isDestroyed s \<or> \<not> message_truthy m")
  case True
  with assms show ?thesis by (simp add: onmessage_def)
next
  case False
  then have nd: "\<not> isDestroyed s" and tr: "message_truthy m" by auto
  show ?thesis
  proof (cases "matching s (destructure m)")
    case None
    from onmessage_event_result[OF nd tr None assms(2), of c] show ?thesis
      by (simp add: same_calls_def)
  next
    case (Some cp)
    note k = matching_Some[OF assms(1) Some]
    from onmessage_response[OF nd tr Some, of env] assms(2)
    have s': "s' = s\<lparr>pendingCalls := AList.delete (fst cp) (pendingCalls s),
        timers := AList.delete (pc_timer (snd cp)) (timers s)\<rparr>"
      and fx: "fx = [ClearTimeout (pc_timer (snd cp)),
       if truthy (ibox_error (destructure m))
       then Reject (pc_promise (snd cp)) (RemoteError (ibox_error (destructure m)))
       else Resolve (pc_promise (snd cp)) (data (destructure m))]"
      by simp_all
    have "settled c fx = (if c = fst cp then 1 else 0)"
      using k by (simp add: fx settled_Cons)
    moreover have "pendingCalls s' = AList.delete (fst cp) (pendingCalls s)" "callId s' = callId s"
      by (simp_all add: s')
    ultimately show ?thesis using k tr by blast
  qed
qed

lemma timer_fires_eq:
  assumes "coherent s"
  shows "timer_fires c s =
    (if is_pending c s
     then (s\<lparr>timers := AList.delete c (timers s), pendingCalls := AList.delete c (pendingCalls s)\<rparr>,
           [Reject c (Timeout (fst (the (map_of (timers s) c))) (snd (the (map_of (timers s) c))))])
     else (s, []))"
  using timer_lookup[OF assms, of c]
  by (auto simp: timer_fires_def timer_callback_def is_pending_def split: option.splits)

lemma timer_fires_settle:
  assumes "coherent s" and "timer_fires c' s = (s', fx)"
  shows "callId s' = callId s \<and>
    (if is_pending c' s
     then pendingCalls s' = AList.delete c' (pendingCalls s) \<and> (settled c fx = (if c = c' then 1 else 0))
     else pendingCalls s' = pendingCalls s \<and> (settled c fx = 0))"
  using assms(2) unfolding timer_fires_eq[OF assms(1)]
  by (auto simp: settled_Cons split: if_splits)

lemma call_refused:
  "isDestroyed s \<Longrightarrow> call env ev d t s = (CallRejected InstanceDestroyed, s, [])"
  "\<not> isDestroyed s \<Longrightarrow> MAX_PENDING_CALLS \<le> length (pendingCalls s) \<Longrightarrow>
     call env ev d t s = (CallRejected Busy, s, [])"
  "\<not> isDestroyed s \<Longrightarrow> length (pendingCalls s) < MAX_PENDING_CALLS \<Longrightarrow>
     validateEvent ev = Inl err \<Longrightarrow> call env ev d t s = (CallThrows err, s, [])"
  by (simp_all add: call_def)

lemma call_accepted:
  assumes "coherent s" "\<not> isDestroyed s" "length (pendingCalls s) < MAX_PENDING_CALLS"
    "validateEvent ev = Inr name"
  shows "call env ev d t s =
    (case postMessage env (request ev d (Suc (callId s))) of
       None \<Rightarrow>
         (CallPromise (Suc (callId s)),
          s\<lparr>callId := Suc (callId s),
            timers := timers s @ [(Suc (callId s), ev, timeout_of t)],
            pendingCalls := pendingCalls s @
              [(Suc (callId s), \<lparr>pc_timer = Suc (callId s), pc_promise = Suc (callId s)\<rparr>)]\<rparr>,
          [SetTimeout (Suc (callId s)) (timeout_of t), PostMessage (request ev d (Suc (callId s)))])
     | Some x \<Rightarrow>
         (CallPromise (Suc (callId s)),
          s\<lparr>callId := Suc (callId s)\<rparr>,
          [SetTimeout (Suc (callId s)) (timeout_of t), ClearTimeout (Suc (callId s)),
           Reject (Suc (callId s)) SendFailed]))"
proof -
  note f = fresh_id[OF assms(1)]
  have ft: "Suc (callId s) \<notin> set (map fst (timers s))"
    using f assms(1) by (simp add: coherent_def)
  show ?thesis
    using assms(2-4) f ft
    by (simp add: call_def Let_def update_fresh delete_append_fresh timeout_of_def
        split: option.splits)
qed

lemma call_settle:
  assumes "coherent s" and "call env ev d t s = (r, s', fx)"
  shows "(pendingCalls s' = pendingCalls s \<and> callId s' = callId s \<and> (settled c fx = 0)) \<or>
     (callId s' = Suc (callId s) \<and> r = CallPromise (Suc (callId s)) \<and>
       ((pendingCalls s' = pendingCalls s @ [(Suc (callId s), \<lparr>pc_timer = Suc (callId s), pc_promise = Suc (callId s)\<rparr>)]
          \<and> (settled c fx = 0)) \<or>
        (pendingCalls s' = pendingCalls s \<and> (settled c fx = (if c = Suc (callId s) then 1 else 0)))))"
proof -
  consider (a) "isDestroyed s" | (b) "\<not> isDestroyed s" "MAX_PENDING_CALLS \<le> length (pendingCalls s)"
    | (c) err where "\<not> isDestroyed s" "length (pendingCalls s) < MAX_PENDING_CALLS" "validateEvent ev = Inl err"
    | (d) name where "\<not> isDestroyed s" "length (pendingCalls s) < MAX_PENDING_CALLS" "validateEvent ev = Inr name"
    by (cases "validateEvent ev") force+
  then show ?thesis
  proof cases
    case a
    with assms(2) show ?thesis by (simp add: call_refused)
  next
    case b
    with assms(2) show ?thesis by (simp add: call_refused)
  next
    case c
    with assms(2) show ?thesis by (simp add: call_refused)
  next
    case d
    show ?thesis
    proof (cases "postMessage env (request ev d (Suc (callId s)))")
      case None
      with assms(2) call_accepted[OF assms(1) d, of env d t] show ?thesis
        by (auto simp: settled_Cons)
    next
      case (Some x)
      with assms(2) call_accepted[OF assms(1) d, of env d t] show ?thesis
        by (auto simp: settled_Cons)
    qed
  qed
qed

subsection \<open>Counting settlements\<close>

text \<open>Along a run, the promise of a call is settled when, and only when, the call leaves the table.\<close>

lemma bookkeeping_same:
  assumes "pendingCalls s' = pendingCalls s" "callId s' = callId s" "settled c fx = 0"
  shows "bookkeeping c s s' fx"
  using assms by (auto simp: bookkeeping_def finished_def is_pending_def)

lemma bookkeeping_delete:
  assumes "coherent s" "is_pending c' s" "pendingCalls s' = AList.delete c' (pendingCalls s)"
    "callId s' = callId s" "settled c fx = (if c = c' then 1 else 0)"
  shows "bookkeeping c s s' fx"
proof -
  have p: "is_pending c s' \<longleftrightarrow> c \<noteq> c' \<and> is_pending c s"
    using assms(3) by (auto simp: is_pending_keys AList.delete_keys)
  show ?thesis
    using assms(2,4,5) pending_range[OF assms(1,2)] p
    by (cases "c = c'") (simp_all add: bookkeeping_def finished_def)
qed

lemma bookkeeping_new:
  assumes "coherent s" "callId s' = Suc (callId s)"
    "pendingCalls s' = pendingCalls s @ [(Suc (callId s), p)]" "settled c fx = 0"
  shows "bookkeeping c s s' fx"
proof -
  have p: "is_pending c s' \<longleftrightarrow> c = Suc (callId s) \<or> is_pending c s"
    using assms(3) by (auto simp: is_pending_keys)
  show ?thesis
    using assms(2,4) p
    by (cases "c = Suc (callId s)") (simp_all add: bookkeeping_def finished_def)
qed

lemma bookkeeping_failed:
  assumes "coherent s" "callId s' = Suc (callId s)"
    "pendingCalls s' = pendingCalls s" "settled c fx = (if c = Suc (callId s) then 1 else 0)"
  shows "bookkeeping c s s' fx"
proof -
  have p: "is_pending c s' \<longleftrightarrow> is_pending c s"
    using assms(3) by (simp add: is_pending_def)
  have f: "\<not> is_pending (Suc (callId s)) s"
    using fresh_id[OF assms(1)] by (simp add: is_pending_keys)
  show ?thesis
    using assms(2,4) p f
    by (cases "c = Suc (callId s)") (simp_all add: bookkeeping_def finished_def)
qed

lemma bookkeeping_destroy:
  assumes "coherent s" "callId s' = callId s"
    "pendingCalls s' = []" "settled c fx = (if is_pending c s then 1 else 0)"
  shows "bookkeeping c s s' fx"
proof -
  have p: "\<not> is_pending c s'"
    using assms(3) by (simp add: is_pending_def)
  show ?thesis
    using assms(2,4) p pending_range[OF assms(1), of c]
    by (cases "is_pending c s") (simp_all add: bookkeeping_def finished_def)
qed

lemma step_settle:
  assumes "coherent s" and "step env a s = Some (s', fx)"
  shows "bookkeeping c s s' fx"
proof (cases a)
  case (Emit ev d)
  with assms(2) have "s' = s" "settled c fx = 0"
    by (auto simp: emit_def settled_Cons split: sum.splits if_splits option.splits)
  then show ?thesis by (simp add: bookkeeping_same)
next
  case (Call ev d t)
  obtain r fx0 where r: "call env ev d t s = (r, s', fx0)"
    and fx: "settled c fx = settled c fx0"
    using Call assms(2) by (auto simp: settled_Cons split: prod.splits call_result.splits)
  from call_settle[OF assms(1) r, of c]
  consider (same) "pendingCalls s' = pendingCalls s" "callId s' = callId s" "settled c fx0 = 0"
    | (new) "callId s' = Suc (callId s)"
        "pendingCalls s' = pendingCalls s @ [(Suc (callId s), \<lparr>pc_timer = Suc (callId s), pc_promise = Suc (callId s)\<rparr>)]"
        "settled c fx0 = 0"
    | (failed) "callId s' = Suc (callId s)" "pendingCalls s' = pendingCalls s"
        "settled c fx0 = (if c = Suc (callId s) then 1 else 0)"
    by (elim disjE conjE) blast+
  then show ?thesis
  proof cases
    case same
    then show ?thesis using fx by (simp add: bookkeeping_same)
  next
    case new
    show ?thesis using bookkeeping_new[OF assms(1) new(1,2)] new(3) fx by simp
  next
    case failed
    show ?thesis using bookkeeping_failed[OF assms(1) failed(1,2)] failed(3) fx by simp
  qed
next
  case (On ev cb)
  with assms(2) have "pendingCalls s' = pendingCalls s" "callId s' = callId s" "settled c fx = 0"
    by (auto simp: on_def settled_Cons split: sum.splits jsval.splits)
  then show ?thesis by (rule bookkeeping_same)
next
  case (Off ev cb)
  with assms(2) have "pendingCalls s' = pendingCalls s" "callId s' = callId s" "settled c fx = 0"
    by (auto simp: off_def split: option.splits)
  then show ?thesis by (rule bookkeeping_same)
next
  case Destroy
  show ?thesis
  proof (cases "isDestroyed s")
    case True
    with Destroy assms(2) have "s' = s" "fx = []" by (simp_all add: destroy_def)
    then show ?thesis by (simp add: bookkeeping_same)
  next
    case False
    have d: "distinct (map fst (pendingCalls s))" using assms(1) by (simp add: coherent_def)
    from destroy_eq[OF assms(1) False] Destroy assms(2)
    have s': "s' = s\<lparr>isDestroyed := True, timers := [], pendingCalls := [], handlers := []\<rparr>"
      and fx: "fx = ClosePort # concat (map (\<lambda>kp. [ClearTimeout (fst kp), Reject (fst kp) ConnectionDestroyed]) (pendingCalls s))"
      by simp_all
    have "callId s' = callId s" "pendingCalls s' = []" 
      "settled c fx = (if is_pending c s then 1 else 0)"
      by (simp_all add: s' fx settled_Cons settled_destroy[OF d] is_pending_keys)
    then show ?thesis by (rule bookkeeping_destroy[OF assms(1)])
  qed
next
  case (Receive m)
  with assms have "onmessage env m s = Some (s', fx)" by simp
  from onmessage_settle[OF assms(1) this, of c]
  consider (same) "pendingCalls s' = pendingCalls s" "callId s' = callId s" "settled c fx = 0"
    | (del) c' where "is_pending c' s" "pendingCalls s' = AList.delete c' (pendingCalls s)"
        "callId s' = callId s" "settled c fx = (if c = c' then 1 else 0)"
    by (elim disjE conjE exE) blast+
  then show ?thesis
  proof cases
    case same
    then show ?thesis by (rule bookkeeping_same)
  next
    case del
    then show ?thesis by (rule bookkeeping_delete[OF assms(1)])
  qed
next
  case (TimerFires c')
  with assms have t: "timer_fires c' s = (s', fx)" by simp
  show ?thesis
  proof (cases "is_pending c' s")
    case True
    with timer_fires_settle[OF assms(1) t, of c]
    have "pendingCalls s' = AList.delete c' (pendingCalls s)"
        "callId s' = callId s" "settled c fx = (if c = c' then 1 else 0)"
      by simp_all
    then show ?thesis by (rule bookkeeping_delete[OF assms(1) True])
  next
    case False
    with timer_fires_settle[OF assms(1) t, of c]
    have "pendingCalls s' = pendingCalls s" "callId s' = callId s" "settled c fx = 0"
      by simp_all
    then show ?thesis by (rule bookkeeping_same)
  qed
qed

lemma bookkeeping_trans:
  "bookkeeping c s s1 fx1 \<Longrightarrow> bookkeeping c s1 s2 fx2 \<Longrightarrow> bookkeeping c s s2 (fx1 @ fx2)"
  unfolding bookkeeping_def settled_append
  by (cases "finished c s"; cases "finished c s1"; cases "finished c s2") simp_all

lemma exec_settle:
  assumes "coherent s" and "exec tr s = Some (s', fx)"
  shows "bookkeeping c s s' fx"
  using assms
proof (induction tr arbitrary: s s' fx)
  case Nil
  then show ?case by (simp add: bookkeeping_same)
next
  case (Cons ea tr)
  from Cons.prems(2) obtain s1 fx1 fx2 where
    s1: "step (fst ea) (snd ea) s = Some (s1, fx1)" and s2: "exec tr s1 = Some (s', fx2)"
    and fx: "fx = fx1 @ fx2"
    unfolding exec_Cons by blast
  note i1 = coherent_step[OF Cons.prems(1) s1]
  from bookkeeping_trans[OF step_settle[OF Cons.prems(1) s1] Cons.IH[OF i1 s2]] fx
  show ?case by simp
qed

lemma run_settled:
  assumes "exec tr createInterface = Some (s, fx)"
  shows "settled c fx = (if finished c s then 1 else 0)"
proof -
  have "\<not> finished c createInterface" by (simp add: finished_def createInterface_def)
  with exec_settle[OF coherent_create assms, of c] show ?thesis
    by (simp add: bookkeeping_def)
qed

subsection \<open>Sample runs\<close>

lemma validate_ping: "validateEvent ping = Inr (ascii ''ping'')"
  by (simp add: ping_def validateEvent_def trim_def ascii_def is_ws_def)

lemma exec_append:
  "exec (xs @ ys) s =
     (case exec xs s of
        None \<Rightarrow> None
      | Some (s1, fx1) \<Rightarrow>
          (case exec ys s1 of None \<Rightarrow> None | Some (s2, fx2) \<Rightarrow> Some (s2, fx1 @ fx2)))"
  by (induction xs arbitrary: s) (auto split: option.splits)

lemma coherent_run: "exec tr createInterface = Some (s, fx) \<Longrightarrow> coherent s"
  using coherent_exec[OF coherent_create] .

lemma after_calls_run:
  "n \<le> MAX_PENDING_CALLS \<Longrightarrow> exec (calls n) createInterface = Some (after_calls n, requests n)"
proof (induction n)
  case 0
  then show ?case by (simp add: calls_def after_calls_def createInterface_def requests_def)
next
  case (Suc n)
  then have IH: "exec (calls n) createInterface = Some (after_calls n, requests n)" by simp
  have c: "coherent (after_calls n)" using coherent_run[OF IH] .
  have l: "length (pendingCalls (after_calls n)) < MAX_PENDING_CALLS"
    using Suc.prems by (simp add: after_calls_def)
  have nd: "\<not> isDestroyed (after_calls n)" by (simp add: after_calls_def)
  have "calls (Suc n) = calls n @ [(quiet, Call ping JNull JUndefined)]"
    by (simp add: calls_def replicate_append_same)
  moreover have "step quiet (Call ping JNull JUndefined) (after_calls n) =
      Some (after_calls (Suc n),
            [SetTimeout (Suc n) (JNum DEFAULT_TIMEOUT), PostMessage (request ping JNull (Suc n))])"
    using call_accepted[OF c nd l validate_ping, of quiet JNull JUndefined]
    by (simp add: quiet_def after_calls_def timeout_of_def)
  ultimately show ?case
    by (simp add: exec_append IH requests_def)
qed

subsection \<open>A destroyed interface stays destroyed\<close>

lemma destroyed_step:
  assumes "isDestroyed s" and "step env a s = Some (s', fx)"
  shows "isDestroyed s'"
proof (cases a)
  case (Call ev d t)
  with assms show ?thesis by (auto simp: call_refused)
next
  case (TimerFires c)
  with assms show ?thesis
    by (auto simp: timer_fires_def timer_callback_def split: option.splits if_splits)
qed (use assms in \<open>auto simp: emit_def on_def off_def destroy_def onmessage_def
      split: sum.splits jsval.splits option.splits if_splits\<close>)

lemma destroyed_exec: "isDestroyed s \<Longrightarrow> exec tr s = Some (s', fx) \<Longrightarrow> isDestroyed s'"
proof (induction tr arbitrary: s s' fx)
  case Nil
  then show ?case by simp
next
  case (Cons ea tr)
  from Cons.prems(2) obtain s1 fx1 fx2 where
    "step (fst ea) (snd ea) s = Some (s1, fx1)" "exec tr s1 = Some (s', fx2)"
    unfolding exec_Cons by blast
  with Cons.IH destroyed_step[OF Cons.prems(1)] show ?case by blast
qed

lemma step_returns:
  assumes "isDestroyed s \<or> (\<forall>m. a \<noteq> Receive m)"
  shows "step env a s \<noteq> None"
proof (cases a)
  case (Receive m)
  with assms show ?thesis by (simp add: onmessage_def)
qed (auto split: sum.splits prod.splits call_result.splits)

lemma destroyed_returns: "isDestroyed s \<Longrightarrow> exec tr s \<noteq> None"
proof (induction tr arbitrary: s)
  case Nil
  show ?case by simp
next
  case (Cons ea tr)
  from step_returns[of s "snd ea" "fst ea"] Cons.prems
  obtain s1 fx1 where s1: "step (fst ea) (snd ea) s = Some (s1, fx1)" by auto
  from Cons.IH[OF destroyed_step[OF Cons.prems s1]] s1 show ?case
    by auto
qed

subsection \<open>The handshake\<close>

lemma host_run_append:
  "host_run (xs @ ys) s =
     (let (s1, fx1) = host_run xs s; (s2, fx2) = host_run ys s1 in (s2, fx1 @ fx2))"
  by (induction xs arbitrary: s) (auto split: prod.splits)

lemma init_discards: "\<not> valid_ready (h_origin s) e \<Longrightarrow> init transfer e s = (s, [])"
  by (auto simp: init_def valid_ready_def)

lemma host_step_discards: "host_discards (h_origin s) x \<Longrightarrow> host_step x s = (s, [])"
  by (cases x) (simp_all add: init_discards)

lemma host_run_discards: "list_all (host_discards (h_origin s)) xs \<Longrightarrow> host_run xs s = (s, [])"
  by (induction xs) (simp_all add: host_step_discards)





subsection \<open>Dispatch\<close>

lemma run_once: "exec once createInterface = Some (after_calls 1, requests 1)"
  using after_calls_run[of 1] by (simp add: MAX_PENDING_CALLS_def once_def calls_def)

lemma pending_once: "is_pending 1 (after_calls 1)"
  by (simp add: after_calls_def is_pending_def)

lemma response_to_pending:
  assumes "coherent s" "is_pending c s" "ibox_res_id e = JNum (int c)"
  shows "onmessage env (Object e) s =
     Some (s\<lparr>pendingCalls := AList.delete c (pendingCalls s), timers := AList.delete c (timers s)\<rparr>,
           [ClearTimeout c,
            if truthy (ibox_error e) then Reject c (RemoteError (ibox_error e))
            else Resolve c (data e)])"
proof -
  obtain p where p: "map_of (pendingCalls s) c = Some p"
    using assms(2) by (auto simp: is_pending_def)
  note own = pending_lookup[OF assms(1) p]
  have c1: "1 \<le> c" using pending_range[OF assms(1,2)] by simp
  have m: "matching s (destructure (Object e)) = Some (c, p)"
    using assms(3) p c1 by (simp add: matching_def)
  from onmessage_response[OF not_destroyed[OF assms(1,2)] _ m, of env] own assms(3)
  show ?thesis by simp
qed

lemma truthy_ping: "truthy ping"
  by (simp add: ping_def ascii_def)

lemma run_registrations:
  "exec registrations createInterface = Some (two_handlers, [])"
  by (simp add: registrations_def two_handlers_def on_def validate_ping createInterface_def
      set_add_def)

lemma registered_truthy:
  assumes "coherent s" "map_of (handlers s) ev = Some cbs"
  shows "truthy ev \<and> cbs \<noteq> [] \<and> distinct cbs"
proof -
  from handlers_ok_lookup[OF _ assms(2)] assms(1)
  have v: "valid_name ev" and c: "cbs \<noteq> []" "distinct cbs" by (simp_all add: coherent_def)
  from v have "truthy ev"
    by (cases ev) (auto simp: valid_name_def trim_def)
  with c show ?thesis by simp
qed

lemma onmessage_dispatch:
  assumes "coherent s" "\<not> isDestroyed s" "matching s e = None"
    "map_of (handlers s) (event e) = Some cbs"
  shows "onmessage env (Object e) s =
     (if truthy (ibox_id e) then Some (first_runs env e cbs s, call_mode env e cbs)
      else emit_mode env e (s, cbs, True) [])"
proof -
  have "registered s e = Some cbs"
    using registered_truthy[OF assms(1,4)] assms(4) by (simp add: registered_def)
  with onmessage_event[OF assms(2) _ , of "Object e" env] assms(3) show ?thesis
    by simp
qed

lemma invocations_notify: "invocations (notify env e cb @ fx) = (cb, data e) # invocations fx"
  by (simp add: notify_def split: outcome.splits)

lemma invocations_visited:
  "invocations (concat (map (notify env e) cbs)) = map (\<lambda>cb. (cb, data e)) cbs"
  by (induction cbs) (simp_all add: invocations_notify)

lemma sent_notify: "sent (notify env e cb @ fx) = sent fx"
  by (simp add: notify_def split: outcome.splits)

lemma sent_visited: "sent (concat (map (notify env e) cbs)) = []"
  by (induction cbs) (simp_all add: sent_notify)




subsection \<open>Validation and the registry\<close>

lemma destroy_create: "destroy createInterface = (destroyed, [ClosePort])"
  by (simp add: destroy_def createInterface_def destroyed_def)

lemma validate_cases: "validateEvent ev = (if valid_name ev then Inr (trim (case ev of JStr n \<Rightarrow> n)) else Inl EventNameError)"
  by (cases ev) (simp_all add: validateEvent_def valid_name_def)

lemma set_delete_absent: "\<not> has_callback cb cbs \<Longrightarrow> set_delete cb cbs = cbs"
  by (cases cb) simp_all

lemma off_unregistered:
  assumes "coherent s" "map_of (handlers s) ev = Some cbs" "\<not> has_callback cb cbs"
  shows "off ev cb s = s"
proof -
  have "cbs \<noteq> []" using handlers_ok_lookup[OF _ assms(2)] assms(1) by (simp add: coherent_def)
  then show ?thesis
    using assms(2,3) by (simp add: off_def set_delete_absent AList.update_triv)
qed

lemma off_registered:
  assumes "map_of (handlers s) ev = Some cbs"
  shows "map_of (handlers (off ev (JFun f) s)) ev =
           (if removeAll f cbs = [] then None else Some (removeAll f cbs)) \<and>
         (ev' \<noteq> ev \<longrightarrow> map_of (handlers (off ev (JFun f) s)) ev' = map_of (handlers s) ev')"
  using assms by (simp add: off_def AList.delete_conv' AList.update_conv')

subsection \<open>The loop of the emit mode\<close>

text \<open>
  Handlers that leave the set of the event alone are all visited, in order. Handlers that
  do not subscribe to the event let the loop end, on a subsequence of the set. How the
  handlers end changes nothing of who is visited.
\<close>

lemma notify_visit: "notify env e cb = visit env e cb"
  by (simp add: notify_def visit_def split: outcome.splits)

lemma map_notify_visit: "map (notify env e) = map (visit env e)"
  by (rule arg_cong[where f = map]) (simp add: fun_eq_iff notify_visit)

lemma iterating_elsewhere:
  "\<not> concerns ev r \<Longrightarrow> iterating ev r (s, todo, attached) = (reentry r s, todo, attached)"
  by (cases r) (auto split: sum.splits)

lemma fold_iterating_elsewhere:
  "list_all (\<lambda>r. \<not> concerns ev r) rs \<Longrightarrow>
     fold (iterating ev) rs (s, todo, attached) = (fold reentry rs s, todo, attached)"
  by (induction rs arbitrary: s) (simp_all add: iterating_elsewhere)

lemma emit_mode_undisturbed:
  "refrain concerns env e cbs \<Longrightarrow>
     emit_mode env e (s, cbs, attached) fx =
       Some (fold reentry (reentries env e cbs) s, fx @ concat (map (notify env e) cbs))"
proof (induction cbs arbitrary: s fx)
  case Nil
  show ?case by (subst emit_mode.simps) (simp add: reentries_def)
next
  case (Cons cb cbs)
  from Cons.prems have r: "list_all (\<lambda>r. \<not> concerns (event e) r) (reenters env cb (data e))"
    and rest: "refrain concerns env e cbs"
    by (simp_all add: refrain_def)
  show ?case
    by (subst emit_mode.simps) (simp add: fold_iterating_elsewhere[OF r] Cons.IH[OF rest] reentries_def)
qed

lemma emit_mode_first:
  assumes "emit_mode env e (s, cb # rest, attached) fx = Some y"
  shows "\<exists>visited. snd y = fx @ concat (map (notify env e) (cb # visited))"
proof -
  from assms have "emit_mode env e
      (fold (iterating (event e)) (reenters env cb (data e)) (s, rest, attached))
      (fx @ notify env e cb) = Some y"
    by (subst (asm) emit_mode.simps) simp
  from emit_mode_result[OF this] show ?thesis by auto
qed

lemma emit_mode_outcomes:
  assumes "emit_mode env e loop fx = Some y" and "reenters env2 = reenters env"
  shows "\<exists>visited. snd y = fx @ concat (map (notify env e) visited) \<and>
     (\<forall>gx. emit_mode env2 e loop gx = Some (fst y, gx @ concat (map (notify env2 e) visited)))"
  using assms
proof (induction rule: emit_mode.raw_induct[rotated, consumes 1])
  case (1 f env e loop fx y)
  obtain s todo attached where loop: "loop = (s, todo, attached)" by (cases loop) auto
  show ?case
  proof (cases todo)
    case Nil
    with 1(2) loop have y: "y = (s, fx)" by simp
    have "\<forall>gx. emit_mode env2 e loop gx = Some (fst y, gx @ concat (map (notify env2 e) []))"
      unfolding loop Nil y by (subst emit_mode.simps) simp
    moreover have "snd y = fx @ concat (map (notify env e) [])" by (simp add: y)
    ultimately show ?thesis by blast
  next
    case (Cons cb rest)
    let ?next = "fold (iterating (event e)) (reenters env cb (data e)) (s, rest, attached)"
    from 1(2) loop Cons have "f env e ?next (fx @ notify env e cb) = Some y" by simp
    from 1(1)[OF this 1(3)] obtain visited where
      v: "snd y = (fx @ notify env e cb) @ concat (map (notify env e) visited)"
      and g: "\<And>gx. emit_mode env2 e ?next gx = Some (fst y, gx @ concat (map (notify env2 e) visited))"
      by blast
    have "emit_mode env2 e loop gx = Some (fst y, gx @ concat (map (notify env2 e) (cb # visited)))"
      for gx
      unfolding loop Cons
      by (subst emit_mode.simps) (simp add: 1(3) g)
    moreover have "snd y = fx @ concat (map (notify env e) (cb # visited))" using v by simp
    ultimately show ?thesis by blast
  qed
qed

lemma iterating_shrinks:
  assumes "\<not> subscribes ev r" "iterating ev r (s, todo, attached) = (s', todo', attached')"
  shows "subseq todo' todo"
proof (cases r)
  case (Subscribes ev' cb)
  with assms show ?thesis by (auto split: sum.splits if_splits)
next
  case (Unsubscribes ev' cb)
  have "subseq (set_delete cb todo) todo"
    by (cases cb) (simp_all add: removeAll_filter_not_eq)
  with Unsubscribes assms show ?thesis by (auto split: if_splits)
qed

lemma fold_iterating_shrinks:
  assumes "list_all (\<lambda>r. \<not> subscribes ev r) rs"
    and "fold (iterating ev) rs (s, todo, attached) = (s', todo', attached')"
  shows "subseq todo' todo"
  using assms
proof (induction rs arbitrary: s todo attached)
  case Nil
  then show ?case by simp
next
  case (Cons r rs)
  obtain s1 todo1 attached1 where i: "iterating ev r (s, todo, attached) = (s1, todo1, attached1)"
    by (metis prod_cases3)
  from Cons.prems have "\<not> subscribes ev r" "list_all (\<lambda>r. \<not> subscribes ev r) rs" by simp_all
  from iterating_shrinks[OF this(1) i] Cons.IH[OF this(2), of s1 todo1 attached1] Cons.prems(2) i
  show ?case by (auto intro: subseq_order.order_trans)
qed

lemma refrain_subseq: "refrain P env e cbs \<Longrightarrow> subseq cbs' cbs \<Longrightarrow> refrain P env e cbs'"
  by (auto simp: refrain_def list_all_iff elim: list_emb_set)

lemma emit_mode_unsubscribing:
  assumes "refrain subscribes env e todo"
  shows "\<exists>s' visited. emit_mode env e (s, todo, attached) fx =
            Some (s', fx @ concat (map (notify env e) visited)) \<and> subseq visited todo \<and>
            (todo \<noteq> [] \<longrightarrow> visited \<noteq> [] \<and> hd visited = hd todo)"
  using assms
proof (induction "length todo" arbitrary: todo s attached fx rule: less_induct)
  case less
  show ?case
  proof (cases todo)
    case Nil
    have "emit_mode env e (s, [], attached) fx = Some (s, fx @ concat (map (notify env e) []))"
      by (subst emit_mode.simps) simp
    then have "emit_mode env e (s, todo, attached) fx =
        Some (s, fx @ concat (map (notify env e) [])) \<and> subseq [] todo \<and>
        (todo \<noteq> [] \<longrightarrow> [] \<noteq> [] \<and> hd [] = hd todo)"
      using Nil by simp
    then show ?thesis by blast
  next
    case (Cons cb rest)
    obtain s1 todo1 attached1 where
      n: "fold (iterating (event e)) (reenters env cb (data e)) (s, rest, attached) = (s1, todo1, attached1)"
      by (metis prod_cases3)
    from less.prems Cons have r: "list_all (\<lambda>r. \<not> subscribes (event e) r) (reenters env cb (data e))"
      and rest: "refrain subscribes env e rest"
      by (simp_all add: refrain_def)
    have sub: "subseq todo1 rest" using fold_iterating_shrinks[OF r n] .
    then have "length todo1 < length todo" using Cons list_emb_length[of "(=)" todo1 rest] by simp
    from less.hyps[OF this refrain_subseq[OF rest sub], of s1 attached1 "fx @ notify env e cb"]
    obtain s' visited where
      v: "emit_mode env e (s1, todo1, attached1) (fx @ notify env e cb) =
            Some (s', (fx @ notify env e cb) @ concat (map (notify env e) visited))"
      and sv: "subseq visited todo1"
      by blast
    have "emit_mode env e (s, todo, attached) fx =
        Some (s', fx @ concat (map (notify env e) (cb # visited)))"
      unfolding Cons by (subst emit_mode.simps) (simp add: n v)
    moreover have "subseq (cb # visited) todo"
      using sv sub Cons by (auto intro: subseq_order.order_trans)
    moreover have "cb # visited \<noteq> [] \<and> hd (cb # visited) = hd todo" using Cons by simp
    ultimately show ?thesis by blast
  qed
qed

lemma reentries_Cons:
  "reentries env e (cb # cbs) = reenters env cb (data e) @ reentries env e cbs"
  by (simp add: reentries_def)

lemma emit_mode_unsubscribes_one:
  assumes "reenters env cb (data e) = [Unsubscribes (event e) (JFun g)]"
    and "refrain concerns env e rest"
  shows "emit_mode env e (s, cb # rest, True) [] =
     Some (fold reentry (reentries env e (cb # removeAll g rest)) s,
           concat (map (notify env e) (cb # removeAll g rest)))"
proof -
  have r: "refrain concerns env e (removeAll g rest)"
    using refrain_subseq[OF assms(2), of "removeAll g rest"]
    by (simp add: removeAll_filter_not_eq)
  show ?thesis
    by (subst emit_mode.simps) (simp add: assms(1) emit_mode_undisturbed[OF r] reentries_Cons)
qed

lemma emit_mode_subscribes_one:
  assumes "reenters env cb (data e) = [Subscribes (event e) (JFun g)]"
    and "map_of (handlers s) (event e) = Some (cb # rest)" and "g \<notin> set (cb # rest)"
    and "valid_name (event e)" and "refrain concerns env e (rest @ [g])"
  shows "emit_mode env e (s, cb # rest, True) [] =
     Some (fold reentry (reentries env e (cb # rest @ [g])) s,
           concat (map (notify env e) (cb # rest @ [g])))"
proof -
  obtain s1 where on: "on (event e) (JFun g) s = Inr s1"
    using assms(4) by (simp add: on_def validate_cases)
  show ?thesis
    using assms(3)
    by (subst emit_mode.simps)
       (simp add: assms(1,2) on emit_mode_undisturbed[OF assms(5)] reentries_Cons)
qed

subsection \<open>A pending call, step by step\<close>

lemma settling_Receive:
  "settling c (Receive m) \<Longrightarrow> \<exists>e. m = Object e \<and> ibox_res_id e = JNum (int c)"
  by (cases m) (simp_all add: no_fields_def)

lemma settle_removes:
  assumes "coherent s" "is_pending c s" "settling c a" "a \<noteq> Destroy"
  shows "map_option (pendingCalls \<circ> fst) (step env a s) = Some (AList.delete c (pendingCalls s))"
proof (cases a)
  case (Receive m)
  with assms(3) obtain e where m: "m = Object e" "ibox_res_id e = JNum (int c)"
    using settling_Receive by blast
  from response_to_pending[OF assms(1,2) m(2), of env] Receive m(1) show ?thesis by simp
next
  case (TimerFires c')
  with assms(3) have "c' = c" by simp
  with timer_fires_eq[OF assms(1), of c] assms(2) TimerFires show ?thesis by simp
qed (use assms in simp_all)

lemma settling_returns:
  assumes "coherent s" "is_pending c s" "settling c a"
  shows "step env a s \<noteq> None"
proof (cases "a = Destroy")
  case True
  then show ?thesis by simp
next
  case False
  from settle_removes[OF assms False, of env] show ?thesis by auto
qed

lemma step_keeps_or_settles:
  assumes "coherent s" "is_pending c s" "step env a s = Some (s', fx)"
  shows "is_pending c s' = (\<not> settling c a)"
proof (cases a)
  case (Emit ev d)
  with assms(2,3) show ?thesis by (auto simp: emit_def split: sum.splits)
next
  case (Call ev d t)
  obtain r s1 fx0 where c0: "call env ev d t s = (r, s1, fx0)" by (metis prod_cases3)
  from call_settle[OF assms(1) c0, of c]
  have "pendingCalls s1 = pendingCalls s \<or> (\<exists>p. pendingCalls s1 = pendingCalls s @ [p])"
    by blast
  then have "is_pending c s1" using assms(2) by (auto simp: is_pending_keys)
  with Call c0 assms(3) show ?thesis by (auto split: call_result.splits)
next
  case (On ev cb)
  with assms(2,3) show ?thesis
    by (auto simp: on_def is_pending_def split: sum.splits jsval.splits)
next
  case (Off ev cb)
  with assms(2,3) show ?thesis by (auto simp: off_def is_pending_def split: option.splits)
next
  case Destroy
  from destroy_eq[OF assms(1) not_destroyed[OF assms(1,2)]] Destroy assms(3) show ?thesis
    by (auto simp: is_pending_def)
next
  case (Receive m)
  show ?thesis
  proof (cases "settling c a")
    case True
    from settle_removes[OF assms(1,2) True, of env] Receive True assms(3) show ?thesis
      by (auto simp: is_pending_keys AList.delete_keys)
  next
    case False
    have om: "onmessage env m s = Some (s', fx)" using assms(3) Receive by simp
    from onmessage_settle[OF assms(1) om, of c]
    consider "pendingCalls s' = pendingCalls s"
      | c' where "message_truthy m" "ibox_res_id (destructure m) = JNum (int c')"
          "pendingCalls s' = AList.delete c' (pendingCalls s)"
      by (elim disjE conjE exE) blast+
    then have "is_pending c s'"
    proof cases
      case 1
      with assms(2) show ?thesis by (simp add: is_pending_def)
    next
      case 2
      with False Receive have "c' \<noteq> c" by auto
      with 2(3) assms(2) show ?thesis by (simp add: is_pending_keys AList.delete_keys)
    qed
    with Receive False show ?thesis by simp
  qed
next
  case (TimerFires c')
  have t: "timer_fires c' s = (s', fx)" using assms(3) TimerFires by simp
  from timer_fires_settle[OF assms(1) t, of c] assms(2) TimerFires show ?thesis
    by (cases "is_pending c' s"; cases "c' = c")
       (auto simp: is_pending_keys AList.delete_keys is_pending_def)
qed

lemma step_pending:
  assumes "coherent s" "is_pending c s" "step env a s = Some (s', fx)"
  shows "settled c fx = (if settling c a then 1 else 0)"
proof -
  note r = pending_range[OF assms(1,2)]
  have b: "bookkeeping c s s' fx" using step_settle[OF assms(1,3)] .
  have nf: "\<not> finished c s" using assms(2) by (simp add: finished_def)
  have le: "c \<le> callId s'" using b r by (simp add: bookkeeping_def)
  have "settled c fx = (if is_pending c s' then 0 else 1)"
    using b nf r le by (simp add: bookkeeping_def finished_def)
  with step_keeps_or_settles[OF assms] show ?thesis by simp
qed

lemma call_second:
  "call quiet ping JNull JUndefined (after_calls 1) =
     (CallPromise 2, after_calls 2,
      [SetTimeout 2 (JNum DEFAULT_TIMEOUT), PostMessage (request ping JNull 2)])"
proof -
  have c: "coherent (after_calls 1)" using coherent_run[OF run_once] .
  have "call quiet ping JNull JUndefined (after_calls 1) =
     (CallPromise (Suc 1), after_calls (Suc 1),
      [SetTimeout (Suc 1) (JNum DEFAULT_TIMEOUT), PostMessage (request ping JNull (Suc 1))])"
    using call_accepted[OF c _ _ validate_ping, of quiet JNull JUndefined]
    by (simp add: after_calls_def MAX_PENDING_CALLS_def quiet_def timeout_of_def)
  then show ?thesis by (simp add: numeral_2_eq_2)
qed

section \<open>The claims\<close>

subsection \<open>C1: a call is settled once\<close>

text \<open>
  Claim C1, amended. In every run of an interface the promise of each call is settled
  at most once, and a call is in the pending-call table exactly from the \<^verbatim>\<open>call\<close> that
  registered it until it is settled. While a call is pending, a step settles it if and
  only if the step is a message whose \<^verbatim>\<open>_ibox_res_id\<close> is its id, the firing of its
  timer, or \<^verbatim>\<open>destroy()\<close>; such a step returns and removes its entry; its timer is armed
  as long as it is pending. A \<^verbatim>\<open>call\<close> on a live interface below capacity, with a valid
  event name, takes the next id and does one of two things. When the port accepts the
  request, it adds exactly the entry of that id and settles nothing; the response or the
  timer of the call, coming next, leaves the table as it was before the call, and
  \<^verbatim>\<open>destroy()\<close> leaves it empty, whatever it held. When \<^verbatim>\<open>postMessage\<close> throws, the call is
  settled inside \<^verbatim>\<open>call\<close> itself, by the rejection \<^verbatim>\<open>'ibox: Send failed'\<close>, its timer cleared
  and the table as it was before the call. A \<^verbatim>\<open>call\<close> that is refused (destroyed, full,
  invalid name) changes nothing and has no promise of its own.
\<close>

theorem C1_settled_once:
  assumes "exec tr createInterface = Some (s, fx)"
  shows "settled c fx \<le> 1 \<and>
    (is_pending c s \<longleftrightarrow> 1 \<le> c \<and> c \<le> callId s \<and> settled c fx = 0) \<and>
    (is_pending c s \<longleftrightarrow> map_of (timers s) c \<noteq> None) \<and>
    (is_pending c s \<and> settling c a \<longrightarrow> step env a s \<noteq> None) \<and>
    (is_pending c s \<and> step env a s = Some (s', fx') \<longrightarrow>
       settled c fx' = (if settling c a then 1 else 0) \<and>
       is_pending c s' = (\<not> settling c a)) \<and>
    (call env ev d t s = (r, s1, fx1) \<and> is_pending c s1 \<and> \<not> is_pending c s \<longrightarrow>
       r = CallPromise c \<and>
       pendingCalls s1 = pendingCalls s @ [(c, \<lparr>pc_timer = c, pc_promise = c\<rparr>)] \<and>
       settled c fx1 = 0 \<and>
       (settling c a \<and> a \<noteq> Destroy \<longrightarrow>
          map_option (pendingCalls \<circ> fst) (step env' a s1) = Some (pendingCalls s)) \<and>
       pendingCalls (fst (destroy s1)) = []) \<and>
    (call env ev d t s = (CallPromise c, s1, fx1) \<and> \<not> is_pending c s1 \<longrightarrow>
       fx1 = [SetTimeout c (timeout_of t), ClearTimeout c, Reject c SendFailed] \<and>
       pendingCalls s1 = pendingCalls s) \<and>
    (\<not> isDestroyed s \<and> length (pendingCalls s) < MAX_PENDING_CALLS \<and> valid_name ev \<and>
     postMessage env (request ev d (Suc (callId s))) = None \<longrightarrow>
       call env ev d t s =
         (CallPromise (Suc (callId s)),
          s\<lparr>callId := Suc (callId s),
            timers := timers s @ [(Suc (callId s), ev, timeout_of t)],
            pendingCalls := pendingCalls s @
              [(Suc (callId s), \<lparr>pc_timer = Suc (callId s), pc_promise = Suc (callId s)\<rparr>)]\<rparr>,
          [SetTimeout (Suc (callId s)) (timeout_of t),
           PostMessage (request ev d (Suc (callId s)))])) \<and>
    (\<not> isDestroyed s \<and> length (pendingCalls s) < MAX_PENDING_CALLS \<and> valid_name ev \<and>
     postMessage env (request ev d (Suc (callId s))) = Some x \<longrightarrow>
       call env ev d t s =
         (CallPromise (Suc (callId s)),
          s\<lparr>callId := Suc (callId s)\<rparr>,
          [SetTimeout (Suc (callId s)) (timeout_of t), ClearTimeout (Suc (callId s)),
           Reject (Suc (callId s)) SendFailed])) \<and>
    (isDestroyed s \<or> MAX_PENDING_CALLS \<le> length (pendingCalls s) \<or> \<not> valid_name ev \<longrightarrow>
       snd (call env ev d t s) = (s, []) \<and> fst (call env ev d t s) \<noteq> CallPromise c)"
proof -
  have co: "coherent s" using assms by (rule coherent_run)
  note rs = run_settled[OF assms, of c]
  have 1: "settled c fx \<le> 1" by (simp add: rs)
  have 2: "is_pending c s \<longleftrightarrow> 1 \<le> c \<and> c \<le> callId s \<and> settled c fx = 0"
    using pending_range[OF co, of c] by (auto simp: rs finished_def)
  have armed: "is_pending c s \<longleftrightarrow> map_of (timers s) c \<noteq> None"
    using timer_lookup[OF co, of c] by simp
  have returns: "step env a s \<noteq> None" if "is_pending c s" "settling c a"
    using settling_returns[OF co that] .
  have 3: "settled c fx' = (if settling c a then 1 else 0) \<and>
       is_pending c s' = (\<not> settling c a)" if "is_pending c s" "step env a s = Some (s', fx')"
    using step_pending[OF co that] step_keeps_or_settles[OF co that] by simp
  have 4: "r = CallPromise c \<and>
       pendingCalls s1 = pendingCalls s @ [(c, \<lparr>pc_timer = c, pc_promise = c\<rparr>)] \<and>
       settled c fx1 = 0 \<and>
       (settling c a \<and> a \<noteq> Destroy \<longrightarrow>
          map_option (pendingCalls \<circ> fst) (step env' a s1) = Some (pendingCalls s)) \<and>
       pendingCalls (fst (destroy s1)) = []"
    if cl: "call env ev d t s = (r, s1, fx1)" and p1: "is_pending c s1" and p0: "\<not> is_pending c s"
  proof -
    from call_settle[OF co cl, of c] p1 p0
    have new: "r = CallPromise (Suc (callId s))"
      "pendingCalls s1 = pendingCalls s @ [(Suc (callId s), \<lparr>pc_timer = Suc (callId s), pc_promise = Suc (callId s)\<rparr>)]"
      "settled c fx1 = 0"
      by (auto simp: is_pending_def)
    from new(2) p1 p0 have c: "c = Suc (callId s)"
      by (auto simp: is_pending_keys)
    have c1: "coherent s1" using coherent_call[OF co cl] .
    have fresh: "c \<notin> set (map fst (pendingCalls s))" using fresh_id[OF co] c by simp
    have rem: "map_option (pendingCalls \<circ> fst) (step env' a s1) = Some (pendingCalls s)"
      if "settling c a" "a \<noteq> Destroy"
      using settle_removes[OF c1 p1 that, of env'] new(2) c delete_append_fresh[OF fresh]
      by simp
    have "pendingCalls (fst (destroy s1)) = []"
      using destroy_eq[OF c1 not_destroyed[OF c1 p1]] by simp
    with new c rem show ?thesis by simp
  qed
  have 5: "fx1 = [SetTimeout c (timeout_of t), ClearTimeout c, Reject c SendFailed] \<and>
       pendingCalls s1 = pendingCalls s"
    if cl: "call env ev d t s = (CallPromise c, s1, fx1)" and p1: "\<not> is_pending c s1"
  proof -
    have nd: "\<not> isDestroyed s" using cl by (auto simp: call_def split: if_splits)
    have lt: "length (pendingCalls s) < MAX_PENDING_CALLS"
      using cl nd by (auto simp: call_def split: if_splits)
    obtain name where v: "validateEvent ev = Inr name"
      using cl nd lt by (cases "validateEvent ev") (auto simp: call_refused)
    show ?thesis
    proof (cases "postMessage env (request ev d (Suc (callId s)))")
      case None
      with call_accepted[OF co nd lt v, of env d t] cl p1 show ?thesis
        by (auto simp: is_pending_def)
    next
      case (Some x)
      with call_accepted[OF co nd lt v, of env d t] cl show ?thesis
        by auto
    qed
  qed
  have 6: "call env ev d t s =
         (CallPromise (Suc (callId s)),
          s\<lparr>callId := Suc (callId s),
            timers := timers s @ [(Suc (callId s), ev, timeout_of t)],
            pendingCalls := pendingCalls s @
              [(Suc (callId s), \<lparr>pc_timer = Suc (callId s), pc_promise = Suc (callId s)\<rparr>)]\<rparr>,
          [SetTimeout (Suc (callId s)) (timeout_of t),
           PostMessage (request ev d (Suc (callId s)))])"
    if "\<not> isDestroyed s" "length (pendingCalls s) < MAX_PENDING_CALLS" "valid_name ev"
      "postMessage env (request ev d (Suc (callId s))) = None"
    using call_accepted[OF co that(1,2), of ev _ env d t] that(3,4)
    by (simp add: validate_cases)
  have 7: "call env ev d t s =
         (CallPromise (Suc (callId s)),
          s\<lparr>callId := Suc (callId s)\<rparr>,
          [SetTimeout (Suc (callId s)) (timeout_of t), ClearTimeout (Suc (callId s)),
           Reject (Suc (callId s)) SendFailed])"
    if "\<not> isDestroyed s" "length (pendingCalls s) < MAX_PENDING_CALLS" "valid_name ev"
      "postMessage env (request ev d (Suc (callId s))) = Some x"
    using call_accepted[OF co that(1,2), of ev _ env d t] that(3,4)
    by (simp add: validate_cases)
  have 8: "snd (call env ev d t s) = (s, []) \<and> fst (call env ev d t s) \<noteq> CallPromise c"
    if "isDestroyed s \<or> MAX_PENDING_CALLS \<le> length (pendingCalls s) \<or> \<not> valid_name ev"
    using that by (auto simp: call_def validate_cases)
  from 1 2 armed returns 3 4 5 6 7 8 show ?thesis by blast
qed

text \<open>
  The instance: call 1 pending and its timer firing; then call 2, its response, and
  \<^verbatim>\<open>destroy()\<close>; a call 2 whose payload the port cannot clone; and a call with a number
  for event name.
\<close>

theorem C1_settled_once_witness:
  "exec once createInterface = Some (after_calls 1, requests 1) \<and>
   is_pending 1 (after_calls 1) \<and>
   settled 1 (requests 1) = 0 \<and>
   step quiet (TimerFires 1) (after_calls 1) =
     Some ((after_calls 0)\<lparr>callId := 1\<rparr>, [Reject 1 (Timeout ping (JNum DEFAULT_TIMEOUT))]) \<and>
   settled 1 [Reject 1 (Timeout ping (JNum DEFAULT_TIMEOUT))] = 1 \<and>
   \<not> is_pending 1 ((after_calls 0)\<lparr>callId := 1\<rparr>) \<and>
   call quiet ping JNull JUndefined (after_calls 1) =
     (CallPromise 2, after_calls 2,
      [SetTimeout 2 (JNum DEFAULT_TIMEOUT), PostMessage (request ping JNull 2)]) \<and>
   is_pending 2 (after_calls 2) \<and> \<not> is_pending 2 (after_calls 1) \<and>
   map_option (pendingCalls \<circ> fst)
     (step quiet (Receive (Object (response (JNum 2) JNull))) (after_calls 2)) =
     Some (pendingCalls (after_calls 1)) \<and>
   pendingCalls (fst (destroy (after_calls 2))) = [] \<and>
   call cloning ping (JFun 7) JUndefined (after_calls 1) =
     (CallPromise 2, (after_calls 1)\<lparr>callId := 2\<rparr>,
      [SetTimeout 2 (JNum DEFAULT_TIMEOUT), ClearTimeout 2, Reject 2 SendFailed]) \<and>
   call quiet (JNum 5) JNull JUndefined (after_calls 1) =
     (CallThrows EventNameError, after_calls 1, [])"
proof -
  have p: "is_pending 2 (after_calls 2)" "\<not> is_pending 2 (after_calls 1)"
    by (simp_all add: after_calls_def is_pending_def upt_conv_Cons)
  have s: "settling 1 (TimerFires 1)" "settling 2 (Receive (Object (response (JNum 2) JNull)))"
    "Receive (Object (response (JNum 2) JNull)) \<noteq> Destroy"
    by (simp_all add: response_def no_fields_def)
  have tf: "step quiet (TimerFires 1) (after_calls 1) =
     Some ((after_calls 0)\<lparr>callId := 1\<rparr>, [Reject 1 (Timeout ping (JNum DEFAULT_TIMEOUT))])"
    by (simp add: timer_fires_def timer_callback_def after_calls_def)
  note t1 = C1_settled_once[OF run_once, where c = 1 and env = quiet and a = "TimerFires 1"
      and s' = "(after_calls 0)\<lparr>callId := 1\<rparr>"
      and fx' = "[Reject 1 (Timeout ping (JNum DEFAULT_TIMEOUT))]"]
  note t2 = C1_settled_once[OF run_once, where c = 2 and env = quiet and env' = quiet
      and a = "Receive (Object (response (JNum 2) JNull))"
      and ev = ping and d = JNull and t = JUndefined and r = "CallPromise 2"
      and ?s1.0 = "after_calls 2"
      and ?fx1.0 = "[SetTimeout 2 (JNum DEFAULT_TIMEOUT), PostMessage (request ping JNull 2)]"]
  note t3 = C1_settled_once[OF run_once, where env = cloning and ev = ping and d = "JFun 7"
      and t = JUndefined and x = clone_error]
  note t4 = C1_settled_once[OF run_once, where c = 2 and env = quiet and ev = "JNum 5"
      and d = JNull and t = JUndefined]
  from t1 pending_once have a1: "settled 1 (requests 1) = 0" by blast
  from t1 pending_once tf
  have "settled 1 [Reject 1 (Timeout ping (JNum DEFAULT_TIMEOUT))] =
          (if settling 1 (TimerFires 1) then 1 else 0) \<and>
        is_pending 1 ((after_calls 0)\<lparr>callId := 1\<rparr>) = (\<not> settling 1 (TimerFires 1))"
    by blast
  with s(1) have a2: "settled 1 [Reject 1 (Timeout ping (JNum DEFAULT_TIMEOUT))] = 1"
    "\<not> is_pending 1 ((after_calls 0)\<lparr>callId := 1\<rparr>)"
    by simp_all
  from t2 call_second p s(2,3) have b:
    "map_option (pendingCalls \<circ> fst)
       (step quiet (Receive (Object (response (JNum 2) JNull))) (after_calls 2)) =
       Some (pendingCalls (after_calls 1))"
    "pendingCalls (fst (destroy (after_calls 2))) = []"
    by blast+
  have live: "\<not> isDestroyed (after_calls 1)"
    "length (pendingCalls (after_calls 1)) < MAX_PENDING_CALLS"
    by (simp_all add: after_calls_def MAX_PENDING_CALLS_def)
  have id: "callId (after_calls 1) = 1" by (simp add: after_calls_def)
  have vp: "valid_name ping" "\<not> valid_name (JNum 5)"
    by (simp_all add: valid_name_def ping_def trim_def ascii_def is_ws_def)
  have pm: "postMessage cloning (request ping (JFun 7) (Suc (callId (after_calls 1)))) = Some clone_error"
    by (simp add: cloning_def request_def no_fields_def)
  from t3 live vp(1) pm
  have c: "call cloning ping (JFun 7) JUndefined (after_calls 1) =
     (CallPromise (Suc (callId (after_calls 1))),
      (after_calls 1)\<lparr>callId := Suc (callId (after_calls 1))\<rparr>,
      [SetTimeout (Suc (callId (after_calls 1))) (timeout_of JUndefined),
       ClearTimeout (Suc (callId (after_calls 1))),
       Reject (Suc (callId (after_calls 1))) SendFailed])"
    by blast
  have c': "call cloning ping (JFun 7) JUndefined (after_calls 1) =
     (CallPromise 2, (after_calls 1)\<lparr>callId := 2\<rparr>,
      [SetTimeout 2 (JNum DEFAULT_TIMEOUT), ClearTimeout 2, Reject 2 SendFailed])"
    unfolding c id by (simp add: timeout_of_def)
  from t4 vp(2) have r: "snd (call quiet (JNum 5) JNull JUndefined (after_calls 1)) = (after_calls 1, [])"
    by blast
  have "fst (call quiet (JNum 5) JNull JUndefined (after_calls 1)) = CallThrows EventNameError"
    using live by (simp add: call_def validateEvent_def)
  with r have d: "call quiet (JNum 5) JNull JUndefined (after_calls 1) =
     (CallThrows EventNameError, after_calls 1, [])"
    by (simp add: prod_eq_iff)
  from run_once pending_once tf a1 a2 b p call_second c' d show ?thesis by blast
qed

text \<open>
  Claim C1 as stated fails in two places. With call 1 pending, call 2 is made and
  \<^verbatim>\<open>destroy()\<close> settles it: the table then holds no entry, where it held one before
  call 2. And a call whose payload the port cannot clone is settled by none of the three
  events named, but by the send failure inside \<^verbatim>\<open>call\<close>.
\<close>

theorem C1_counterexample:
  "exec once createInterface = Some (after_calls 1, requests 1) \<and>
   call quiet ping JNull JUndefined (after_calls 1) =
     (CallPromise 2, after_calls 2,
      [SetTimeout 2 (JNum DEFAULT_TIMEOUT), PostMessage (request ping JNull 2)]) \<and>
   length (pendingCalls (after_calls 1)) = 1 \<and>
   settled 2 (snd (destroy (after_calls 2))) = 1 \<and>
   length (pendingCalls (fst (destroy (after_calls 2)))) = 0 \<and>
   call cloning ping (JFun 7) JUndefined createInterface =
     (CallPromise 1, createInterface\<lparr>callId := 1\<rparr>,
      [SetTimeout 1 (JNum DEFAULT_TIMEOUT), ClearTimeout 1, Reject 1 SendFailed])"
proof -
  have a: "length (pendingCalls (after_calls 1)) = 1" by (simp add: after_calls_def)
  have d: "destroy (after_calls 2) =
      ((after_calls 2)\<lparr>isDestroyed := True, timers := [], pendingCalls := [], handlers := []\<rparr>,
       [ClosePort, ClearTimeout 1, Reject 1 ConnectionDestroyed,
        ClearTimeout 2, Reject 2 ConnectionDestroyed])"
    by (simp add: destroy_def after_calls_def p_reject_def upt_conv_Cons)
  have b: "settled 2 (snd (destroy (after_calls 2))) = 1"
    "length (pendingCalls (fst (destroy (after_calls 2)))) = 0"
    by (simp_all add: d settled_def)
  have c: "call cloning ping (JFun 7) JUndefined createInterface =
     (CallPromise 1, createInterface\<lparr>callId := 1\<rparr>,
      [SetTimeout 1 (JNum DEFAULT_TIMEOUT), ClearTimeout 1, Reject 1 SendFailed])"
    using call_accepted[OF coherent_create _ _ validate_ping, of cloning "JFun 7" JUndefined]
    by (simp add: createInterface_def MAX_PENDING_CALLS_def cloning_def timeout_of_def
        request_def no_fields_def)
  from run_once call_second a b c show ?thesis by blast
qed

subsection \<open>C2: requests\<close>




text \<open>
  Left out of the amended claim: a handler that throws \<^verbatim>\<open>null\<close> or \<^verbatim>\<open>undefined\<close>, or
  rejects without a reason. Reading \<^verbatim>\<open>err.message\<close> then throws inside the \<^verbatim>\<open>catch\<close>
  block and no response is sent; nor is one sent while the promise of a handler never
  settles.
\<close>

lemma request_without_response:
  "onmessage (failing (RejectsWith JUndefined)) (Object question) two_handlers =
     Some (two_handlers, [Invoke 0 (JNum 7), Unhandled TypeError]) \<and>
   onmessage (failing NeverSettles) (Object question) two_handlers =
     Some (two_handlers, [Invoke 0 (JNum 7)])"
  by (simp add: onmessage_def two_handlers_def question_def request_def no_fields_def
      call_mode_def catch_block_def failing_def Let_def truthy_ping first_runs_def)

subsection \<open>C3: responses to pending calls\<close>

text \<open>
  What the dispatcher does with an envelope whose \<^verbatim>\<open>_ibox_res_id\<close> is the id of a pending
  call: it deletes the entry, clears the timer of the call and settles it, invokes no
  handler and posts nothing. It rejects with \<^verbatim>\<open>new Error(_ibox_error)\<close> when \<^verbatim>\<open>_ibox_error\<close>
  is truthy, and resolves with \<^verbatim>\<open>data\<close> when it is not: the test of line 38 is
  \<^verbatim>\<open>if (_ibox_error)\<close>, not a test of presence.
\<close>

lemma response_settles:
  assumes "exec tr createInterface = Some (s, fx)" and "is_pending c s"
    and "ibox_res_id e = JNum (int c)"
  shows "onmessage env (Object e) s =
           Some (s\<lparr>pendingCalls := AList.delete c (pendingCalls s),
                   timers := AList.delete c (timers s)\<rparr>,
                 [ClearTimeout c,
                  if truthy (ibox_error e) then Reject c (RemoteError (ibox_error e))
                  else Resolve c (data e)]) \<and>
         \<not> is_pending c (s\<lparr>pendingCalls := AList.delete c (pendingCalls s),
                             timers := AList.delete c (timers s)\<rparr>) \<and>
         (ibox_error e = JStr m \<and> m \<noteq> [] \<longrightarrow>
            truthy (ibox_error e) \<and> error_message (RemoteError (JStr m)) = Some m) \<and>
         (ibox_error e = JStr [] \<longrightarrow> \<not> truthy (ibox_error e))"
proof -
  have c: "coherent s" using assms(1) by (rule coherent_run)
  note r = response_to_pending[OF c assms(2,3), of env]
  then show ?thesis
    by (auto simp: is_pending_keys AList.delete_keys)
qed

text \<open>
  Claim C3: a response to a pending call settles the call with failure, carrying the
  error message of the envelope, when an error message is present, and with success
  otherwise. The code breaks this for the error message that is the empty string, and it
  produces that envelope itself. Call 1 is pending on one side. On the other side the
  handler of the request throws \<^verbatim>\<open>new Error('')\<close>, and the \<^verbatim>\<open>catch\<close> block of the dispatcher
  (lines 54 and 55) answers \<^verbatim>\<open>{_ibox_res_id: 1, _ibox_error: ''}\<close>: the sender marks a
  failure. The receiver tests \<^verbatim>\<open>if (_ibox_error)\<close> (line 38), finds the empty string falsy
  and resolves call 1 with \<^verbatim>\<open>undefined\<close>: the failure of the handler reaches the caller
  as a success.
\<close>

theorem C3_failure_reported_as_success:
  "exec once createInterface = Some (after_calls 1, requests 1) \<and>
   requests 1 = [SetTimeout 1 (JNum DEFAULT_TIMEOUT), PostMessage (request ping JNull 1)] \<and>
   is_pending 1 (after_calls 1) \<and>
   handler (failing (Throws (JError []))) 0 JNull = Throws (JError []) \<and>
   onmessage (failing (Throws (JError []))) (Object (request ping JNull 1)) two_handlers =
     Some (two_handlers, [Invoke 0 JNull, PostMessage empty_error_reply]) \<and>
   empty_error_reply =
     no_fields\<lparr>ibox_res_id := JNum 1, ibox_error := JStr []\<rparr> \<and>
   onmessage quiet (Object empty_error_reply) (after_calls 1) =
     Some ((after_calls 0)\<lparr>callId := 1\<rparr>, [ClearTimeout 1, Resolve 1 JUndefined])"
proof -
  have 1: "requests 1 = [SetTimeout 1 (JNum DEFAULT_TIMEOUT), PostMessage (request ping JNull 1)]"
    by (simp add: requests_def)
  have 2: "handler (failing (Throws (JError []))) 0 JNull = Throws (JError [])"
    by (simp add: failing_def)
  have 3: "onmessage (failing (Throws (JError []))) (Object (request ping JNull 1)) two_handlers =
     Some (two_handlers, [Invoke 0 JNull, PostMessage empty_error_reply])"
    by (simp add: onmessage_def two_handlers_def request_def no_fields_def call_mode_def
        catch_block_def failing_def Let_def truthy_ping first_runs_def empty_error_reply_def
        error_response_def)
  have 4: "empty_error_reply = no_fields\<lparr>ibox_res_id := JNum 1, ibox_error := JStr []\<rparr>"
    by (simp add: empty_error_reply_def error_response_def)
  have 5: "onmessage quiet (Object empty_error_reply) (after_calls 1) =
     Some ((after_calls 0)\<lparr>callId := 1\<rparr>, [ClearTimeout 1, Resolve 1 JUndefined])"
    by (simp add: onmessage_def after_calls_def empty_error_reply_def error_response_def
        no_fields_def p_resolve_def p_reject_def Let_def)
  from run_once 1 pending_once 2 3 4 5 show ?thesis by blast
qed

text \<open>
  The same happens where the handler throws a value that is not an \<^verbatim>\<open>Error\<close>, a string
  for one: \<^verbatim>\<open>err.message\<close> is \<^verbatim>\<open>undefined\<close>, the answer is
  \<^verbatim>\<open>{_ibox_res_id: 1, _ibox_error: undefined}\<close>, and call 1 is resolved.
\<close>

lemma thrown_string_reported_as_success:
  "onmessage (failing (Throws (JStr (ascii ''boom'')))) (Object (request ping JNull 1))
     two_handlers =
     Some (two_handlers, [Invoke 0 JNull, PostMessage (error_response (JNum 1) JUndefined)]) \<and>
   onmessage quiet (Object (error_response (JNum 1) JUndefined)) (after_calls 1) =
     Some ((after_calls 0)\<lparr>callId := 1\<rparr>, [ClearTimeout 1, Resolve 1 JUndefined])"
proof -
  have "onmessage (failing (Throws (JStr (ascii ''boom'')))) (Object (request ping JNull 1))
     two_handlers =
     Some (two_handlers, [Invoke 0 JNull, PostMessage (error_response (JNum 1) JUndefined)])"
    by (simp add: onmessage_def two_handlers_def request_def no_fields_def call_mode_def
        catch_block_def failing_def Let_def truthy_ping first_runs_def error_response_def)
  moreover have "onmessage quiet (Object (error_response (JNum 1) JUndefined)) (after_calls 1) =
     Some ((after_calls 0)\<lparr>callId := 1\<rparr>, [ClearTimeout 1, Resolve 1 JUndefined])"
    by (simp add: onmessage_def after_calls_def error_response_def
        no_fields_def p_resolve_def p_reject_def Let_def)
  ultimately show ?thesis by blast
qed

subsection \<open>C4: fire-and-forget events\<close>

text \<open>
  Claim C4, amended. On a live interface, take an inbound envelope that matches no
  pending call, carries no truthy \<^verbatim>\<open>_ibox_id\<close> and names an event with registered
  handlers. The dispatcher iterates the set of these handlers itself, not a copy, and
  handlers may call \<^verbatim>\<open>on\<close> and \<^verbatim>\<open>off\<close> while they run. When no registered handler
  subscribes or unsubscribes a callback of this event while it runs, every registered
  handler is invoked with the payload, once each and in registration order (\<^verbatim>\<open>on\<close>
  appends a new callback to the set), and the dispatch returns. When the handlers
  unsubscribe callbacks of the event but subscribe none, the dispatch returns, and the
  handlers invoked are a subsequence of the registered ones, in registration order,
  with the first-registered among them. When the first-registered handler unsubscribes
  one callback of the event and the others leave the set alone, that callback is
  skipped unless it is the first handler itself, and all others are invoked in order;
  when it subscribes one new callback instead, the new callback is invoked in the same
  dispatch, after all others. In every dispatch that returns, the
  first-registered handler is invoked first; each invocation is followed by one
  \<^verbatim>\<open>console.error\<close> with the event and the thrown value when the handler throws
  synchronously, and by nothing otherwise: the promise that a handler returns is not
  awaited, so a rejection is neither propagated nor reported by the dispatcher. How a
  handler ends (returning, throwing, rejecting, never settling) changes neither which
  handlers are invoked, nor the state, nor whether the dispatch returns. The dispatcher
  posts nothing and changes nothing of the state but what the handlers themselves
  subscribe and unsubscribe.
\<close>

theorem C4_notification_dispatch:
  assumes "exec tr createInterface = Some (s, fx)" and "\<not> isDestroyed s"
    and "matching s e = None" and "map_of (handlers s) (event e) = Some cbs"
    and "\<not> truthy (ibox_id e)"
  shows "(refrain concerns env e cbs \<longrightarrow>
            onmessage env (Object e) s =
              Some (fold reentry (reentries env e cbs) s, concat (map (visit env e) cbs))) \<and>
         (refrain subscribes env e cbs \<longrightarrow>
            (\<exists>s' visited.
               onmessage env (Object e) s = Some (s', concat (map (visit env e) visited)) \<and>
               subseq visited cbs \<and> visited \<noteq> [] \<and> hd visited = hd cbs)) \<and>
         (reenters env (hd cbs) (data e) = [Unsubscribes (event e) (JFun g)] \<and>
          refrain concerns env e (tl cbs) \<longrightarrow>
            onmessage env (Object e) s =
              Some (fold reentry (reentries env e (hd cbs # removeAll g (tl cbs))) s,
                    concat (map (visit env e) (hd cbs # removeAll g (tl cbs))))) \<and>
         (reenters env (hd cbs) (data e) = [Subscribes (event e) (JFun g)] \<and> g \<notin> set cbs \<and>
          refrain concerns env e (tl cbs @ [g]) \<longrightarrow>
            onmessage env (Object e) s =
              Some (fold reentry (reentries env e (cbs @ [g])) s,
                    concat (map (visit env e) (cbs @ [g])))) \<and>
         (onmessage env (Object e) s = Some (s', fx') \<longrightarrow>
            same_calls s s' \<and> sent fx' = [] \<and>
            fx' = concat (map (visit env e) (map fst (invocations fx'))) \<and>
            invocations fx' \<noteq> [] \<and> hd (invocations fx') = (hd cbs, data e) \<and>
            list_all (\<lambda>i. snd i = data e) (invocations fx')) \<and>
         (reenters env2 = reenters env \<longrightarrow>
            map_option (\<lambda>y. (fst y, invocations (snd y))) (onmessage env2 (Object e) s) =
            map_option (\<lambda>y. (fst y, invocations (snd y))) (onmessage env (Object e) s)) \<and>
         (on (event e) (JFun f) s = Inr s1 \<longrightarrow>
            map_of (handlers s1) (event e) = Some (if f \<in> set cbs then cbs else cbs @ [f]))"
proof -
  have c: "coherent s" using assms(1) by (rule coherent_run)
  have o: "onmessage env (Object e) s = emit_mode env e (s, cbs, True) []" for env
    using onmessage_dispatch[OF c assms(2,3,4), of env] assms(5) by simp
  from registered_truthy[OF c assms(4)] obtain cb rest where cbs: "cbs = cb # rest"
    by (cases cbs) auto
  note nv = map_notify_visit
  have 1: "onmessage env (Object e) s =
      Some (fold reentry (reentries env e cbs) s, concat (map (visit env e) cbs))"
    if "refrain concerns env e cbs"
    unfolding o using emit_mode_undisturbed[OF that, of s True "[]"] by (simp add: nv)
  have 2: "\<exists>s' visited.
       onmessage env (Object e) s = Some (s', concat (map (visit env e) visited)) \<and>
       subseq visited cbs \<and> visited \<noteq> [] \<and> hd visited = hd cbs"
    if "refrain subscribes env e cbs"
    unfolding o using emit_mode_unsubscribing[OF that, of s True "[]"] cbs by (auto simp: nv)
  have live1: "onmessage env (Object e) s =
      Some (fold reentry (reentries env e (hd cbs # removeAll g (tl cbs))) s,
            concat (map (visit env e) (hd cbs # removeAll g (tl cbs))))"
    if "reenters env (hd cbs) (data e) = [Unsubscribes (event e) (JFun g)]"
      "refrain concerns env e (tl cbs)"
    unfolding o cbs using emit_mode_unsubscribes_one[of env cb e g rest s] that cbs
    by (simp add: nv)
  have live2: "onmessage env (Object e) s =
      Some (fold reentry (reentries env e (cbs @ [g])) s,
            concat (map (visit env e) (cbs @ [g])))"
    if "reenters env (hd cbs) (data e) = [Subscribes (event e) (JFun g)]" "g \<notin> set cbs"
      "refrain concerns env e (tl cbs @ [g])"
  proof -
    have v: "valid_name (event e)"
      using handlers_ok_lookup[OF _ assms(4)] c by (simp add: coherent_def)
    from emit_mode_subscribes_one[of env cb e g s rest] that cbs assms(4) v
    show ?thesis unfolding o cbs by (simp add: nv)
  qed
  have 3: "same_calls s s' \<and> sent fx' = [] \<and>
      fx' = concat (map (visit env e) (map fst (invocations fx'))) \<and>
      invocations fx' \<noteq> [] \<and> hd (invocations fx') = (hd cbs, data e) \<and>
      list_all (\<lambda>i. snd i = data e) (invocations fx')"
    if r: "onmessage env (Object e) s = Some (s', fx')"
  proof -
    from r have l: "emit_mode env e (s, cb # rest, True) [] = Some (s', fx')"
      unfolding o cbs .
    from emit_mode_result[OF l] have sc: "same_calls s s'" by simp
    from emit_mode_first[OF l] obtain visited where
      v: "fx' = concat (map (notify env e) (cb # visited))" by auto
    have i: "invocations fx' = map (\<lambda>cb. (cb, data e)) (cb # visited)"
      unfolding v by (rule invocations_visited)
    have "map fst (invocations fx') = cb # visited" unfolding i by (simp add: comp_def)
    then have "fx' = concat (map (visit env e) (map fst (invocations fx')))"
      using v by (simp add: nv)
    moreover have "sent fx' = []" unfolding v by (rule sent_visited)
    moreover have "list_all (\<lambda>i. snd i = data e) (invocations fx')"
      unfolding i by (simp add: list_all_iff)
    ultimately show ?thesis using sc i cbs by simp
  qed
  have 4: "map_option (\<lambda>y. (fst y, invocations (snd y))) (onmessage env2 (Object e) s) =
      map_option (\<lambda>y. (fst y, invocations (snd y))) (onmessage env (Object e) s)"
    if same: "reenters env2 = reenters env"
  proof -
    have half: "\<exists>gx. emit_mode b e (s, cbs, True) [] = Some (fst y, gx) \<and>
        invocations gx = invocations (snd y)"
      if "emit_mode a e (s, cbs, True) [] = Some y" "reenters b = reenters a" for a b y
    proof -
      from emit_mode_outcomes[OF that] obtain visited where
        v: "snd y = concat (map (notify a e) visited)"
        and g: "emit_mode b e (s, cbs, True) [] = Some (fst y, concat (map (notify b e) visited))"
        by force
      have "invocations (concat (map (notify b e) visited)) = invocations (snd y)"
        unfolding v by (simp add: invocations_visited)
      with g show ?thesis by blast
    qed
    show ?thesis
    proof (cases "emit_mode env e (s, cbs, True) []")
      case None
      have "emit_mode env2 e (s, cbs, True) [] = None"
      proof (cases "emit_mode env2 e (s, cbs, True) []")
        case (Some y)
        from half[OF Some same[symmetric]] None show ?thesis by auto
      qed simp
      with None show ?thesis unfolding o by simp
    next
      case (Some y)
      from half[OF Some same] Some show ?thesis
        unfolding o by auto
    qed
  qed
  have 5: "map_of (handlers s1) (event e) = Some (if f \<in> set cbs then cbs else cbs @ [f])"
    if "on (event e) (JFun f) s = Inr s1"
    using that assms(4)
    by (auto simp: on_def set_add_def AList.update_conv' split: sum.splits)
  from 1 2 live1 live2 3 4 5 show ?thesis by blast
qed

text \<open>
  The instance: two handlers. The first throws; the first rejects instead; the first
  unsubscribes the second; the first subscribes a third.
\<close>

theorem C4_notification_dispatch_witness:
  "exec registrations createInterface = Some (two_handlers, []) \<and>
   refrain concerns (failing (Throws (JError (ascii ''bad'')))) notice [0, 1] \<and>
   onmessage (failing (Throws (JError (ascii ''bad'')))) (Object notice) two_handlers =
     Some (two_handlers,
           [Invoke 0 (JNum 7), ConsoleError ping (JError (ascii ''bad'')), Invoke 1 (JNum 7)]) \<and>
   map_option (\<lambda>y. (fst y, invocations (snd y)))
     (onmessage (failing (RejectsWith (JError (ascii ''bad'')))) (Object notice) two_handlers) =
     Some (two_handlers, [(0, JNum 7), (1, JNum 7)]) \<and>
   refrain subscribes (doing [Unsubscribes ping (JFun 1)]) notice [0, 1] \<and>
   (\<exists>s' visited.
      onmessage (doing [Unsubscribes ping (JFun 1)]) (Object notice) two_handlers =
        Some (s', concat (map (visit (doing [Unsubscribes ping (JFun 1)]) notice) visited)) \<and>
      subseq visited [0, 1] \<and> hd visited = 0) \<and>
   onmessage (doing [Unsubscribes ping (JFun 1)]) (Object notice) two_handlers =
     Some (two_handlers\<lparr>handlers := [(ping, [0])]\<rparr>, [Invoke 0 (JNum 7)]) \<and>
   onmessage (doing [Subscribes ping (JFun 2)]) (Object notice) two_handlers =
     Some (two_handlers\<lparr>handlers := [(ping, [0, 1, 2])]\<rparr>,
           [Invoke 0 (JNum 7), Invoke 1 (JNum 7), Invoke 2 (JNum 7)]) \<and>
   map_of (handlers (two_handlers\<lparr>handlers := [(ping, [0, 1, 2])]\<rparr>)) ping = Some [0, 1, 2]"
proof -
  let ?bad = "failing (Throws (JError (ascii ''bad'')))"
  let ?rej = "failing (RejectsWith (JError (ascii ''bad'')))"
  let ?off = "doing [Unsubscribes ping (JFun 1)]"
  have nd: "\<not> isDestroyed two_handlers" by (simp add: two_handlers_def)
  have m: "matching two_handlers notice = None"
    by (simp add: matching_def notice_def no_fields_def)
  have h: "map_of (handlers two_handlers) (event notice) = Some [0, 1]"
    by (simp add: two_handlers_def notice_def no_fields_def)
  have i: "\<not> truthy (ibox_id notice)" "event notice = ping" "data notice = JNum 7"
    by (simp_all add: notice_def no_fields_def)
  have r1: "refrain concerns ?bad notice [0, 1]"
    by (simp add: refrain_def failing_def)
  have r2: "refrain subscribes ?off notice [0, 1]"
    by (simp add: refrain_def doing_def)
  have same: "reenters ?rej = reenters ?bad" by (simp add: failing_def)
  have on2: "on (event notice) (JFun 2) two_handlers =
      Inr (two_handlers\<lparr>handlers := [(ping, [0, 1, 2])]\<rparr>)"
    by (simp add: i on_def validate_ping two_handlers_def set_add_def)
  note t1 = C4_notification_dispatch[OF run_registrations nd m h i(1),
      where env = ?bad and ?env2.0 = ?rej and f = 2
        and ?s1.0 = "two_handlers\<lparr>handlers := [(ping, [0, 1, 2])]\<rparr>"]
  note t2 = C4_notification_dispatch[OF run_registrations nd m h i(1), where env = ?off]
  from t1 r1 have a: "onmessage ?bad (Object notice) two_handlers =
      Some (fold reentry (reentries ?bad notice [0, 1]) two_handlers,
            concat (map (visit ?bad notice) [0, 1]))"
    by blast
  have a': "onmessage ?bad (Object notice) two_handlers =
     Some (two_handlers,
           [Invoke 0 (JNum 7), ConsoleError ping (JError (ascii ''bad'')), Invoke 1 (JNum 7)])"
    unfolding a by (simp add: reentries_def visit_def failing_def i)
  from t1 same have "map_option (\<lambda>y. (fst y, invocations (snd y)))
       (onmessage ?rej (Object notice) two_handlers) =
     map_option (\<lambda>y. (fst y, invocations (snd y))) (onmessage ?bad (Object notice) two_handlers)"
    by blast
  then have b: "map_option (\<lambda>y. (fst y, invocations (snd y)))
       (onmessage ?rej (Object notice) two_handlers) = Some (two_handlers, [(0, JNum 7), (1, JNum 7)])"
    unfolding a' by simp
  from t2 r2 have "\<exists>s' visited.
      onmessage ?off (Object notice) two_handlers =
        Some (s', concat (map (visit ?off notice) visited)) \<and>
      subseq visited [0, 1] \<and> visited \<noteq> [] \<and> hd visited = hd [0, 1]"
    by blast
  then have c: "\<exists>s' visited.
      onmessage ?off (Object notice) two_handlers =
        Some (s', concat (map (visit ?off notice) visited)) \<and>
      subseq visited [0, 1] \<and> hd visited = 0"
    by auto
  from t1 on2 have d: "map_of (handlers (two_handlers\<lparr>handlers := [(ping, [0, 1, 2])]\<rparr>)) ping =
      Some [0, 1, 2]"
    by (simp add: i)
  let ?on = "doing [Subscribes ping (JFun 2)]"
  note t3 = C4_notification_dispatch[OF run_registrations nd m h i(1),
      where env = ?off and g = 1]
  note t4 = C4_notification_dispatch[OF run_registrations nd m h i(1),
      where env = ?on and g = 2]
  have b1: "reenters ?off (hd [0, 1]) (data notice) = [Unsubscribes (event notice) (JFun 1)]"
    "refrain concerns ?off notice (tl [0, 1])"
    by (simp_all add: doing_def i refrain_def)
  have b2: "reenters ?on (hd [0, 1]) (data notice) = [Subscribes (event notice) (JFun 2)]"
    "2 \<notin> set [0, 1::nat]" "refrain concerns ?on notice (tl [0, 1] @ [2])"
    by (simp_all add: doing_def i refrain_def)
  from t3 b1 have "onmessage ?off (Object notice) two_handlers =
      Some (fold reentry (reentries ?off notice (hd [0, 1] # removeAll 1 (tl [0, 1]))) two_handlers,
            concat (map (visit ?off notice) (hd [0, 1] # removeAll 1 (tl [0, 1]))))"
    by blast
  then have e1: "onmessage ?off (Object notice) two_handlers =
     Some (two_handlers\<lparr>handlers := [(ping, [0])]\<rparr>, [Invoke 0 (JNum 7)])"
    by (simp add: reentries_def visit_def doing_def i off_def two_handlers_def)
  from t4 b2 have "onmessage ?on (Object notice) two_handlers =
      Some (fold reentry (reentries ?on notice ([0, 1] @ [2])) two_handlers,
            concat (map (visit ?on notice) ([0, 1] @ [2])))"
    by blast
  then have e2: "onmessage ?on (Object notice) two_handlers =
     Some (two_handlers\<lparr>handlers := [(ping, [0, 1, 2])]\<rparr>,
           [Invoke 0 (JNum 7), Invoke 1 (JNum 7), Invoke 2 (JNum 7)])"
    by (simp add: reentries_def visit_def doing_def i on_def validate_ping two_handlers_def
        set_add_def)
  from run_registrations r1 a' b r2 c e1 e2 d show ?thesis by blast
qed

text \<open>
  Claim C4 as stated fails in two places. A handler that rejects is reported to no
  diagnostic sink by the dispatcher: both handlers run, and there is no \<^verbatim>\<open>console.error\<close>.
  And not every registered handler is invoked: when the first handler unsubscribes the
  second, the second, registered when the envelope arrived, is not invoked.
\<close>

theorem C4_counterexample:
  "exec registrations createInterface = Some (two_handlers, []) \<and>
   map_of (handlers two_handlers) ping = Some [0, 1] \<and>
   handler (failing (RejectsWith (JError (ascii ''bad'')))) 0 (JNum 7) =
     RejectsWith (JError (ascii ''bad'')) \<and>
   onmessage (failing (RejectsWith (JError (ascii ''bad'')))) (Object notice) two_handlers =
     Some (two_handlers, [Invoke 0 (JNum 7), Invoke 1 (JNum 7)]) \<and>
   diagnostics [Invoke 0 (JNum 7), Invoke 1 (JNum 7)] = [] \<and>
   onmessage (doing [Unsubscribes ping (JFun 1)]) (Object notice) two_handlers =
     Some (two_handlers\<lparr>handlers := [(ping, [0])]\<rparr>, [Invoke 0 (JNum 7)])"
proof -
  have 1: "onmessage (failing (RejectsWith (JError (ascii ''bad'')))) (Object notice) two_handlers =
     Some (two_handlers, [Invoke 0 (JNum 7), Invoke 1 (JNum 7)])"
    by (simp add: onmessage_def two_handlers_def notice_def no_fields_def emit_mode.simps
        notify_def failing_def Let_def truthy_ping)
  have 2: "onmessage (doing [Unsubscribes ping (JFun 1)]) (Object notice) two_handlers =
     Some (two_handlers\<lparr>handlers := [(ping, [0])]\<rparr>, [Invoke 0 (JNum 7)])"
    by (simp add: onmessage_def two_handlers_def notice_def no_fields_def emit_mode.simps
        notify_def doing_def Let_def truthy_ping off_def)
  have 3: "map_of (handlers two_handlers) ping = Some [0, 1]"
    by (simp add: two_handlers_def)
  have 4: "handler (failing (RejectsWith (JError (ascii ''bad'')))) 0 (JNum 7) =
     RejectsWith (JError (ascii ''bad''))"
    by (simp add: failing_def)
  from run_registrations 1 2 3 4 show ?thesis by simp
qed

text \<open>
  Two more dispatches, of a handler that unsubscribes itself and subscribes itself
  again. Where it is the only handler of the event, \<^verbatim>\<open>off\<close> empties the set and deletes the
  key, \<^verbatim>\<open>on\<close> makes a new set, and the loop, which iterates the old one, ends. Where there
  is a second handler, the set stays, the handler is appended to it and visited again,
  and so for ever: the dispatch does not return.
\<close>

lemma dispatch_after_detach:
  "onmessage (doing [Unsubscribes ping (JFun 0), Subscribes ping (JFun 0)]) (Object notice)
     (two_handlers\<lparr>handlers := [(ping, [0])]\<rparr>) =
     Some (two_handlers\<lparr>handlers := [(ping, [0])]\<rparr>, [Invoke 0 (JNum 7)])"
  by (simp add: onmessage_def two_handlers_def notice_def no_fields_def emit_mode.simps
      notify_def doing_def Let_def truthy_ping on_def off_def validate_ping set_add_def)

lemma loop_for_ever:
  assumes "emit_mode env e loop fx = Some y"
  shows "\<not> (env = doing [Unsubscribes ping (JFun 0), Subscribes ping (JFun 0)] \<and> e = notice \<and>
            loop = (two_handlers\<lparr>handlers := [(ping, [1, 0])]\<rparr>, [0], True))"
  using assms
proof (induction rule: emit_mode.raw_induct[rotated, consumes 1])
  case (1 f env e loop fx y)
  show ?case
  proof
    assume a: "env = doing [Unsubscribes ping (JFun 0), Subscribes ping (JFun 0)] \<and> e = notice \<and>
            loop = (two_handlers\<lparr>handlers := [(ping, [1, 0])]\<rparr>, [0], True)"
    have "fold (iterating (event e)) (reenters env 0 (data e))
            (two_handlers\<lparr>handlers := [(ping, [1, 0])]\<rparr>, [], True) =
          (two_handlers\<lparr>handlers := [(ping, [1, 0])]\<rparr>, [0], True)"
      using a
      by (simp add: doing_def notice_def no_fields_def two_handlers_def off_def on_def
          validate_ping set_add_def)
    with 1(2) a have "f env e loop (fx @ notify env e 0) = Some y" by simp
    from 1(1)[OF this] a show False by simp
  qed
qed

lemma dispatch_never_returns:
  "onmessage (doing [Unsubscribes ping (JFun 0), Subscribes ping (JFun 0)]) (Object notice)
     two_handlers = None"
proof -
  let ?env = "doing [Unsubscribes ping (JFun 0), Subscribes ping (JFun 0)]"
  have "onmessage ?env (Object notice) two_handlers =
      emit_mode ?env notice (two_handlers\<lparr>handlers := [(ping, [1, 0])]\<rparr>, [0], True)
        [Invoke 0 (JNum 7), Invoke 1 (JNum 7)]"
    by (simp add: onmessage_def two_handlers_def notice_def no_fields_def Let_def truthy_ping)
       (subst emit_mode.simps, simp add: doing_def off_def on_def validate_ping set_add_def
          notify_def, subst emit_mode.simps, simp add: doing_def notify_def)
  moreover have "emit_mode ?env notice (two_handlers\<lparr>handlers := [(ping, [1, 0])]\<rparr>, [0], True)
        [Invoke 0 (JNum 7), Invoke 1 (JNum 7)] = None"
  proof (rule ccontr)
    assume "emit_mode ?env notice (two_handlers\<lparr>handlers := [(ping, [1, 0])]\<rparr>, [0], True)
        [Invoke 0 (JNum 7), Invoke 1 (JNum 7)] \<noteq> None"
    then obtain y where "emit_mode ?env notice
        (two_handlers\<lparr>handlers := [(ping, [1, 0])]\<rparr>, [0], True)
        [Invoke 0 (JNum 7), Invoke 1 (JNum 7)] = Some y"
      by auto
    from loop_for_ever[OF this] show False by simp
  qed
  ultimately show ?thesis by simp
qed

subsection \<open>C5: destroy\<close>

text \<open>
  Claim C5. On an interface that is not yet destroyed, \<^verbatim>\<open>destroy()\<close> sets the destroyed
  flag, closes the port, calls the stored \<^verbatim>\<open>reject\<close> of every pending entry with
  \<^verbatim>\<open>'ibox: Connection destroyed'\<close> (clearing its timer), in insertion order, and leaves
  the pending-call table, the timers and the handler registry empty. A second
  \<^verbatim>\<open>destroy()\<close> changes nothing and has no effect. Whatever is done to the interface
  afterwards, it stays destroyed: \<^verbatim>\<open>emit\<close> throws and \<^verbatim>\<open>call\<close> returns a promise rejected
  with \<^verbatim>\<open>'ibox: Instance destroyed'\<close>, and a further \<^verbatim>\<open>destroy()\<close> is again without
  effect.
\<close>

theorem C5_destroy:
  assumes "exec tr createInterface = Some (s, fx)" and "\<not> isDestroyed s"
    and "destroy s = (s1, fx1)"
  shows "s1 = s\<lparr>isDestroyed := True, timers := [], pendingCalls := [], handlers := []\<rparr> \<and>
         fx1 = ClosePort #
               concat (map (\<lambda>kp. [ClearTimeout (fst kp), Reject (fst kp) ConnectionDestroyed])
                        (pendingCalls s)) \<and>
         (is_pending c s \<longrightarrow> Reject c ConnectionDestroyed \<in> set fx1) \<and>
         error_message ConnectionDestroyed = Some (ascii ''ibox: Connection destroyed'') \<and>
         destroy s1 = (s1, []) \<and>
         (\<exists>s2 fx2. exec tr2 s1 = Some (s2, fx2) \<and>
            isDestroyed s2 \<and> pendingCalls s2 = [] \<and>
            destroy s2 = (s2, []) \<and>
            emit env ev d s2 = Inl InstanceDestroyed \<and>
            call env ev d t s2 = (CallRejected InstanceDestroyed, s2, [])) \<and>
         error_message InstanceDestroyed = Some (ascii ''ibox: Instance destroyed'')"
proof -
  have c: "coherent s" using assms(1) by (rule coherent_run)
  from destroy_eq[OF c assms(2)] assms(3)
  have s1: "s1 = s\<lparr>isDestroyed := True, timers := [], pendingCalls := [], handlers := []\<rparr>"
    and fx1: "fx1 = ClosePort #
               concat (map (\<lambda>kp. [ClearTimeout (fst kp), Reject (fst kp) ConnectionDestroyed])
                        (pendingCalls s))"
    by simp_all
  have rej: "Reject c ConnectionDestroyed \<in> set fx1" if "is_pending c s"
    using that unfolding fx1 is_pending_keys by (auto simp: image_iff)
  have d1: "isDestroyed s1" by (simp add: s1)
  have c1: "coherent s1" using coherent_destroy[OF c assms(3)] .
  from destroyed_returns[OF d1, of tr2] obtain s2 fx2 where r2: "exec tr2 s1 = Some (s2, fx2)"
    by auto
  have c2: "coherent s2" using coherent_exec[OF c1 r2] .
  have d2: "isDestroyed s2" using destroyed_exec[OF d1 r2] .
  have p2: "pendingCalls s2 = []" using c2 d2 by (simp add: coherent_def)
  have "exec tr2 s1 = Some (s2, fx2) \<and>
            isDestroyed s2 \<and> pendingCalls s2 = [] \<and>
            destroy s2 = (s2, []) \<and>
            emit env ev d s2 = Inl InstanceDestroyed \<and>
            call env ev d t s2 = (CallRejected InstanceDestroyed, s2, [])"
    using r2 d2 p2 by (simp add: destroy_def emit_def call_refused)
  then have after: "\<exists>s2 fx2. exec tr2 s1 = Some (s2, fx2) \<and>
            isDestroyed s2 \<and> pendingCalls s2 = [] \<and>
            destroy s2 = (s2, []) \<and>
            emit env ev d s2 = Inl InstanceDestroyed \<and>
            call env ev d t s2 = (CallRejected InstanceDestroyed, s2, [])"
    by blast
  have "destroy s1 = (s1, [])" using d1 by (simp add: destroy_def)
  with s1 fx1 rej after show ?thesis
    by simp
qed

text \<open>
  The instance: one pending call, \<^verbatim>\<open>destroy()\<close>, then an \<^verbatim>\<open>on\<close> and a second
  \<^verbatim>\<open>destroy()\<close>, then \<^verbatim>\<open>emit\<close> and \<^verbatim>\<open>call\<close>.
\<close>

theorem C5_destroy_witness:
  "exec once createInterface = Some (after_calls 1, requests 1) \<and>
   \<not> isDestroyed (after_calls 1) \<and> is_pending 1 (after_calls 1) \<and>
   destroy (after_calls 1) =
     ((after_calls 1)\<lparr>isDestroyed := True, timers := [], pendingCalls := [], handlers := []\<rparr>,
      [ClosePort, ClearTimeout 1, Reject 1 ConnectionDestroyed]) \<and>
   Reject 1 ConnectionDestroyed \<in> set (snd (destroy (after_calls 1))) \<and>
   exec later (fst (destroy (after_calls 1))) =
     Some ((after_calls 1)\<lparr>isDestroyed := True, timers := [], pendingCalls := [],
             handlers := [(ping, [0])]\<rparr>, []) \<and>
   emit quiet ping JNull
     ((after_calls 1)\<lparr>isDestroyed := True, timers := [], pendingCalls := [],
        handlers := [(ping, [0])]\<rparr>) = Inl InstanceDestroyed \<and>
   call quiet ping JNull JUndefined
     ((after_calls 1)\<lparr>isDestroyed := True, timers := [], pendingCalls := [],
        handlers := [(ping, [0])]\<rparr>) =
     (CallRejected InstanceDestroyed,
      (after_calls 1)\<lparr>isDestroyed := True, timers := [], pendingCalls := [],
         handlers := [(ping, [0])]\<rparr>, [])"
proof -
  have nd: "\<not> isDestroyed (after_calls 1)" by (simp add: after_calls_def)
  have d: "destroy (after_calls 1) =
     ((after_calls 1)\<lparr>isDestroyed := True, timers := [], pendingCalls := [], handlers := []\<rparr>,
      [ClosePort, ClearTimeout 1, Reject 1 ConnectionDestroyed])"
    by (simp add: destroy_def after_calls_def p_reject_def)
  have "exec later
      ((after_calls 1)\<lparr>isDestroyed := True, timers := [], pendingCalls := [], handlers := []\<rparr>) =
     Some ((after_calls 1)\<lparr>isDestroyed := True, timers := [], pendingCalls := [],
             handlers := [(ping, [0])]\<rparr>, [])"
    by (simp add: later_def on_def validate_ping set_add_def destroy_def after_calls_def)
  then have l: "exec later (fst (destroy (after_calls 1))) =
     Some ((after_calls 1)\<lparr>isDestroyed := True, timers := [], pendingCalls := [],
             handlers := [(ping, [0])]\<rparr>, [])"
    unfolding d by simp
  note t = C5_destroy[OF run_once nd d, of 1 later quiet ping JNull JUndefined]
  have sd: "snd (destroy (after_calls 1)) = [ClosePort, ClearTimeout 1, Reject 1 ConnectionDestroyed]"
    unfolding d by simp
  from t pending_once
  have "Reject 1 ConnectionDestroyed \<in> set [ClosePort, ClearTimeout 1, Reject 1 ConnectionDestroyed]"
    by blast
  then have m: "Reject 1 ConnectionDestroyed \<in> set (snd (destroy (after_calls 1)))"
    unfolding sd .
  have fd: "fst (destroy (after_calls 1)) =
      (after_calls 1)\<lparr>isDestroyed := True, timers := [], pendingCalls := [], handlers := []\<rparr>"
    unfolding d by simp
  from t l[unfolded fd] have e: "emit quiet ping JNull
     ((after_calls 1)\<lparr>isDestroyed := True, timers := [], pendingCalls := [],
        handlers := [(ping, [0])]\<rparr>) = Inl InstanceDestroyed"
    "call quiet ping JNull JUndefined
     ((after_calls 1)\<lparr>isDestroyed := True, timers := [], pendingCalls := [],
        handlers := [(ping, [0])]\<rparr>) =
     (CallRejected InstanceDestroyed,
      (after_calls 1)\<lparr>isDestroyed := True, timers := [], pendingCalls := [],
         handlers := [(ping, [0])]\<rparr>, [])"
    by auto
  from run_once nd pending_once d m l e show ?thesis by blast
qed

subsection \<open>C6: usage errors\<close>

text \<open>
  Claim C6, amended. An event name that is not a string with a non-empty trimmed form
  makes \<^verbatim>\<open>on\<close> throw, makes \<^verbatim>\<open>emit\<close> throw on an interface that is not destroyed, and
  makes \<^verbatim>\<open>call\<close> throw on an interface that is not destroyed and below capacity, each
  with \<^verbatim>\<open>'ibox: Event name must be a non-empty string'\<close> and the state unchanged. A
  handler that is not a function makes \<^verbatim>\<open>on\<close> throw
  \<^verbatim>\<open>'ibox: Handler must be a function'\<close>. On a destroyed interface \<^verbatim>\<open>emit\<close> throws
  \<^verbatim>\<open>'ibox: Instance destroyed'\<close>. \<^verbatim>\<open>on\<close> and \<^verbatim>\<open>off\<close> do not look at the destroyed flag:
  \<^verbatim>\<open>on\<close> with a valid name and a function registers the handler on any interface, and
  \<^verbatim>\<open>off\<close> never throws, whatever its arguments (it only changes the registry, and does
  nothing for an event without handlers).
\<close>

theorem C6_usage_errors:
  "(\<not> valid_name ev \<longrightarrow>
      validateEvent ev = Inl EventNameError \<and>
      on ev cb s = Inl EventNameError \<and>
      (\<not> isDestroyed s \<longrightarrow> emit env ev d s = Inl EventNameError) \<and>
      (\<not> isDestroyed s \<and> length (pendingCalls s) < MAX_PENDING_CALLS \<longrightarrow>
         call env ev d t s = (CallThrows EventNameError, s, []))) \<and>
   (valid_name ev \<and> \<not> is_function cb \<longrightarrow> on ev cb s = Inl HandlerNotFunction) \<and>
   (isDestroyed s \<longrightarrow> emit env ev d s = Inl InstanceDestroyed) \<and>
   (valid_name ev \<and> cb = JFun f \<longrightarrow>
      on ev cb s =
        Inr (s\<lparr>handlers :=
               AList.update ev
                 (set_add f (case map_of (handlers s) ev of None \<Rightarrow> [] | Some cbs \<Rightarrow> cbs))
                 (handlers s)\<rparr>)) \<and>
   step env (Off ev cb) s = Some (off ev cb s, []) \<and>
   isDestroyed (off ev cb s) = isDestroyed s \<and>
   (map_of (handlers s) ev = None \<longrightarrow> off ev cb s = s)"
proof -
  have 1: "validateEvent ev = Inl EventNameError" if "\<not> valid_name ev"
    using that by (simp add: validate_cases)
  have 2: "\<exists>n. validateEvent ev = Inr n" if "valid_name ev"
    using that by (simp add: validate_cases)
  have 3: "on ev cb s = Inl HandlerNotFunction" if "valid_name ev" "\<not> is_function cb"
    using 2[OF that(1)] that(2) by (cases cb) (auto simp: on_def)
  have 4: "isDestroyed (off ev cb s) = isDestroyed s"
    by (simp add: off_def split: option.splits)
  show ?thesis
    using 1 2 3 4
    by (auto simp: on_def emit_def call_refused off_def)
qed

text \<open>
  The instance: a number and a blank string as event names, a string as handler, and
  \<^verbatim>\<open>emit\<close> after \<^verbatim>\<open>destroy\<close>.
\<close>

theorem C6_usage_errors_witness:
  "\<not> valid_name (JNum 5) \<and> \<not> valid_name (JStr (ascii ''  '')) \<and> valid_name ping \<and>
   on (JNum 5) (JFun 0) createInterface = Inl EventNameError \<and>
   emit quiet (JStr (ascii ''  '')) JNull createInterface = Inl EventNameError \<and>
   call quiet (JNum 5) JNull JUndefined createInterface =
     (CallThrows EventNameError, createInterface, []) \<and>
   on ping (JStr (ascii ''f'')) createInterface = Inl HandlerNotFunction \<and>
   emit quiet ping JNull destroyed = Inl InstanceDestroyed \<and>
   on ping (JFun 0) createInterface = Inr (createInterface\<lparr>handlers := [(ping, [0])]\<rparr>)"
proof -
  have v: "\<not> valid_name (JNum 5)" "\<not> valid_name (JStr (ascii ''  ''))" "valid_name ping"
    by (simp_all add: valid_name_def trim_def ascii_def is_ws_def ping_def)
  have s: "\<not> isDestroyed createInterface"
    "length (pendingCalls createInterface) < MAX_PENDING_CALLS" "isDestroyed destroyed"
    "map_of (handlers createInterface) ping = None"
    by (simp_all add: createInterface_def MAX_PENDING_CALLS_def destroyed_def)
  note t1 = C6_usage_errors[of "JNum 5" "JFun 0" createInterface quiet JNull JUndefined 0]
  note t2 = C6_usage_errors[of "JStr (ascii ''  '')" "JFun 0" createInterface quiet JNull JUndefined 0]
  note t3 = C6_usage_errors[of ping "JStr (ascii ''f'')" createInterface quiet JNull JUndefined 0]
  note t4 = C6_usage_errors[of ping "JFun 0" destroyed quiet JNull JUndefined 0]
  note t5 = C6_usage_errors[of ping "JFun 0" createInterface quiet JNull JUndefined 0]
  from t5 v s have "on ping (JFun 0) createInterface = Inr (createInterface\<lparr>handlers := [(ping, [0])]\<rparr>)"
    by (simp add: set_add_def createInterface_def)
  with t1 t2 t3 t4 v s show ?thesis
    by simp
qed

text \<open>
  Claim C6 as stated fails for \<^verbatim>\<open>on\<close> and \<^verbatim>\<open>off\<close> on a destroyed interface, which
  return normally (\<^verbatim>\<open>on\<close> even registers the handler), and for \<^verbatim>\<open>off\<close> with an event
  name that is not a string.
\<close>

theorem C6_counterexample:
  "destroy createInterface = (destroyed, [ClosePort]) \<and> isDestroyed destroyed \<and>
   on ping (JFun 0) destroyed = Inr (destroyed\<lparr>handlers := [(ping, [0])]\<rparr>) \<and>
   step quiet (On ping (JFun 0)) destroyed = Some (destroyed\<lparr>handlers := [(ping, [0])]\<rparr>, []) \<and>
   step quiet (Off ping (JFun 0)) destroyed = Some (destroyed, []) \<and>
   step quiet (Off (JNum 5) JNull) createInterface = Some (createInterface, [])"
proof -
  have a: "isDestroyed destroyed" by (simp add: destroyed_def)
  have b: "on ping (JFun 0) destroyed = Inr (destroyed\<lparr>handlers := [(ping, [0])]\<rparr>)"
    by (simp add: on_def validate_ping destroyed_def createInterface_def set_add_def)
  have c: "step quiet (Off ping (JFun 0)) destroyed = Some (destroyed, [])"
    "step quiet (Off (JNum 5) JNull) createInterface = Some (createInterface, [])"
    by (simp_all add: off_def destroyed_def createInterface_def)
  from b have d: "step quiet (On ping (JFun 0)) destroyed = Some (destroyed\<lparr>handlers := [(ping, [0])]\<rparr>, [])"
    by simp
  from destroy_create a b c d show ?thesis by blast
qed

subsection \<open>C7: the capacity of the pending-call table\<close>

text \<open>
  Claim C7. The pending-call table never holds more than 1000 entries: in every state
  that a run of the interface reaches its size is at most 1000, and when it is 1000 the
  next \<^verbatim>\<open>call\<close> returns a promise rejected with \<^verbatim>\<open>'ibox: Busy'\<close>, leaves the state as it
  was (no new entry, no new id) and posts nothing.
\<close>

theorem C7_busy_at_capacity:
  assumes "exec tr createInterface = Some (s, fx)"
  shows "MAX_PENDING_CALLS = 1000 \<and>
         length (pendingCalls s) \<le> 1000 \<and>
         (length (pendingCalls s) = 1000 \<longrightarrow>
            call env ev d t s = (CallRejected Busy, s, []) \<and>
            step env (Call ev d t) s = Some (s, [PromiseReject Busy]) \<and>
            error_message Busy = Some (ascii ''ibox: Busy''))"
proof -
  have c: "coherent s" using assms by (rule coherent_run)
  then have le: "length (pendingCalls s) \<le> 1000"
    by (simp add: coherent_def MAX_PENDING_CALLS_def)
  have "call env ev d t s = (CallRejected Busy, s, [])" if "length (pendingCalls s) = 1000"
  proof -
    from that have "pendingCalls s \<noteq> []" by auto
    with c have "\<not> isDestroyed s" by (auto simp: coherent_def)
    then show ?thesis using that by (simp add: call_refused MAX_PENDING_CALLS_def)
  qed
  with le show ?thesis by (simp add: MAX_PENDING_CALLS_def)
qed

text \<open>
  The instance: after 1000 calls that nothing has answered, the table holds 1000
  entries and the next call is refused.
\<close>

theorem C7_busy_at_capacity_witness:
  "length (pendingCalls (after_calls 1000)) = 1000 \<and>
   exec (calls 1000) createInterface = Some (after_calls 1000, requests 1000) \<and>
   call quiet ping JNull JUndefined (after_calls 1000) = (CallRejected Busy, after_calls 1000, [])"
proof -
  have r: "exec (calls 1000) createInterface = Some (after_calls 1000, requests 1000)"
    using after_calls_run[of 1000] by (simp add: MAX_PENDING_CALLS_def)
  have l: "length (pendingCalls (after_calls 1000)) = 1000"
    by (simp add: after_calls_def)
  from C7_busy_at_capacity[OF r, of quiet ping JNull JUndefined] l
  have "call quiet ping JNull JUndefined (after_calls 1000) = (CallRejected Busy, after_calls 1000, [])"
    by blast
  with r l show ?thesis by blast
qed

subsection \<open>C8: the host side of the handshake\<close>

text \<open>
  Claim C8. \<^verbatim>\<open>host\<close> without a child surface returns a promise that is already
  rejected with \<^verbatim>\<open>'ibox: No iframe'\<close>, with no timer set and no listener added. With a
  child surface it sets one timer of 15000 ms and adds the listener \<^verbatim>\<open>init\<close>, which
  leaves the state as it is, with no effect, on every bus message whose origin is not
  the expected one (unless the expected origin is \<^verbatim>\<open>'*'\<close>) or whose payload is not
  \<^verbatim>\<open>'IBOX_READY'\<close>. When only such messages arrive before the timer fires, the promise
  is rejected with \<^verbatim>\<open>'ibox: Host connection timeout'\<close>, the timer is cleared and the
  listener removed.
\<close>

theorem C8_host_handshake:
  "host False origin =
     (\<lparr>h_origin = origin, h_listening = False, h_timer = False, h_result = Failed NoIframe\<rparr>,
      warning origin) \<and>
   host True origin =
     (\<lparr>h_origin = origin, h_listening = True, h_timer = True, h_result = Waiting\<rparr>,
      warning origin @ [SetTimeoutMs 15000, AddListener]) \<and>
   (\<not> valid_ready (h_origin s) e \<longrightarrow> init transfer e s = (s, [])) \<and>
   (list_all (host_discards origin) es \<longrightarrow>
      host_run (es @ [HostTimer]) (fst (host True origin)) =
        (\<lparr>h_origin = origin, h_listening = False, h_timer = False, h_result = Failed HostTimeout\<rparr>,
         [ClearTimer, RemoveListener]))"
proof -
  let ?s0 = "\<lparr>h_origin = origin, h_listening = True, h_timer = True, h_result = Waiting\<rparr>"
  have timeout: "host_run (es @ [HostTimer]) ?s0 =
        (\<lparr>h_origin = origin, h_listening = False, h_timer = False, h_result = Failed HostTimeout\<rparr>,
         [ClearTimer, RemoveListener])" if "list_all (host_discards origin) es"
  proof -
    have "host_run es ?s0 = (?s0, [])"
      using that host_run_discards[of ?s0 es] by simp
    then show ?thesis
      by (simp add: host_run_append host_timeout_def host_settle_def host_cleanup_def)
  qed
  then show ?thesis
    by (simp add: host_def init_discards)
qed

text \<open>
  The instance: a ready signal from another origin and a stray payload from the expected
  origin, then the timer.
\<close>

theorem C8_host_handshake_witness:
  "\<not> valid_ready child_origin \<lparr>bus_origin = other_origin, bus_data = MSG_READY, bus_port = False\<rparr> \<and>
   init None \<lparr>bus_origin = other_origin, bus_data = MSG_READY, bus_port = False\<rparr>
     (fst (host True child_origin)) = (fst (host True child_origin), []) \<and>
   list_all (host_discards child_origin) stray_messages \<and>
   host_run (stray_messages @ [HostTimer]) (fst (host True child_origin)) =
     (\<lparr>h_origin = child_origin, h_listening = False, h_timer = False,
       h_result = Failed HostTimeout\<rparr>,
      [ClearTimer, RemoveListener])"
proof -
  have o: "other_origin \<noteq> child_origin" "child_origin \<noteq> wildcard"
    "JStr (ascii ''hello'') \<noteq> MSG_READY"
    by (simp_all add: other_origin_def child_origin_def wildcard_def MSG_READY_def ascii_def)
  have v: "\<not> valid_ready (h_origin (fst (host True child_origin)))
      \<lparr>bus_origin = other_origin, bus_data = MSG_READY, bus_port = False\<rparr>"
    using o by (simp add: valid_ready_def host_def)
  have l: "list_all (host_discards child_origin) stray_messages"
    using o by (simp add: stray_messages_def valid_ready_def)
  note t = C8_host_handshake[of child_origin "fst (host True child_origin)"
      "\<lparr>bus_origin = other_origin, bus_data = MSG_READY, bus_port = False\<rparr>" None stray_messages]
  from t v l show ?thesis by (simp add: host_def)
qed

subsection \<open>C9: the client side of the handshake\<close>



subsection \<open>C10: the handler registry\<close>

text \<open>
  Claim C10, amended. In every state that a run of the interface reaches, the keys of
  the handler registry are distinct and each is an event name as it was passed to
  \<^verbatim>\<open>on\<close>: a string whose trimmed form is not empty, stored untrimmed; and each key has a
  non-empty set of distinct callbacks. \<^verbatim>\<open>off\<close> is the identity for an event without
  handlers and for a callback that is not in the set of the event; for a registered
  callback it removes that callback only, deletes the key exactly when the set becomes
  empty, leaves every other event alone, and a second \<^verbatim>\<open>off\<close> with the same arguments
  changes nothing.
\<close>

theorem C10_registry:
  assumes "exec tr createInterface = Some (s, fx)"
  shows "distinct (map fst (handlers s)) \<and>
         (map_of (handlers s) ev = Some cbs \<longrightarrow> valid_name ev \<and> cbs \<noteq> [] \<and> distinct cbs) \<and>
         (valid_name ev \<longrightarrow>
            on ev (JFun f) s =
              Inr (s\<lparr>handlers :=
                     AList.update ev
                       (set_add f (case map_of (handlers s) ev of None \<Rightarrow> [] | Some cbs \<Rightarrow> cbs))
                       (handlers s)\<rparr>)) \<and>
         (map_of (handlers s) ev = None \<longrightarrow> off ev cb s = s) \<and>
         (map_of (handlers s) ev = Some cbs \<and> \<not> has_callback cb cbs \<longrightarrow> off ev cb s = s) \<and>
         (map_of (handlers s) ev = Some cbs \<and> f \<in> set cbs \<longrightarrow>
            map_of (handlers (off ev (JFun f) s)) ev =
              (if removeAll f cbs = [] then None else Some (removeAll f cbs)) \<and>
            set (removeAll f cbs) = set cbs - {f} \<and>
            (ev' \<noteq> ev \<longrightarrow> map_of (handlers (off ev (JFun f) s)) ev' = map_of (handlers s) ev') \<and>
            off ev (JFun f) (off ev (JFun f) s) = off ev (JFun f) s)"
proof -
  have c: "coherent s" using assms by (rule coherent_run)
  then have h: "handlers_ok (handlers s)" by (simp add: coherent_def)
  then have d: "distinct (map fst (handlers s))" by (simp add: handlers_ok_def)
  have l: "valid_name ev \<and> cbs \<noteq> [] \<and> distinct cbs" if "map_of (handlers s) ev = Some cbs"
    using handlers_ok_lookup[OF h that] .
  have o: "on ev (JFun f) s =
              Inr (s\<lparr>handlers :=
                     AList.update ev
                       (set_add f (case map_of (handlers s) ev of None \<Rightarrow> [] | Some cbs \<Rightarrow> cbs))
                       (handlers s)\<rparr>)" if "valid_name ev"
    using that by (simp add: on_def validate_cases)
  have n: "off ev cb s = s" if "map_of (handlers s) ev = None"
    using that by (simp add: off_def)
  have twice: "off ev (JFun f) (off ev (JFun f) s) = off ev (JFun f) s"
    if m: "map_of (handlers s) ev = Some cbs"
  proof (cases "removeAll f cbs = []")
    case True
    with off_registered[OF m, of f] have "map_of (handlers (off ev (JFun f) s)) ev = None" by simp
    then show ?thesis by (simp add: off_def)
  next
    case False
    with off_registered[OF m, of f]
    have m': "map_of (handlers (off ev (JFun f) s)) ev = Some (removeAll f cbs)" by simp
    have c': "coherent (off ev (JFun f) s)" using coherent_off[OF c] .
    show ?thesis by (rule off_unregistered[OF c' m']) simp
  qed
  show ?thesis
    using d l o n off_unregistered[OF c, of ev cbs cb] off_registered[of s ev cbs f ev'] twice
    by simp
qed

text \<open>The instance: two handlers for \<^verbatim>\<open>'ping'\<close>, removed one after the other.\<close>

theorem C10_registry_witness:
  "exec registrations createInterface = Some (two_handlers, []) \<and>
   map_of (handlers two_handlers) ping = Some [0, 1] \<and> valid_name ping \<and>
   off ping (JFun 7) two_handlers = two_handlers \<and>
   off padded (JFun 0) two_handlers = two_handlers \<and>
   map_of (handlers (off ping (JFun 0) two_handlers)) ping = Some [1] \<and>
   map_of (handlers (off ping (JFun 1) (off ping (JFun 0) two_handlers))) ping = None"
proof -
  have m: "map_of (handlers two_handlers) ping = Some [0, 1]"
    "map_of (handlers two_handlers) padded = None"
    by (simp_all add: two_handlers_def ping_def padded_def ascii_def)
  note t1 = C10_registry[OF run_registrations, of ping "[0, 1]" 0 "JFun 7" padded]
  note t2 = C10_registry[OF run_registrations, of padded "[0, 1]" 0 "JFun 0" ping]
  have r: "exec (registrations @ [(quiet, Off ping (JFun 0))]) createInterface =
      Some (off ping (JFun 0) two_handlers, [])"
    by (simp add: exec_append run_registrations)
  from t1 m have 1: "map_of (handlers (off ping (JFun 0) two_handlers)) ping = Some [1]"
    by simp
  note t3 = C10_registry[OF r, of ping "[1]" 1 "JFun 1" padded]
  from t3 1 have 2: "map_of (handlers (off ping (JFun 1) (off ping (JFun 0) two_handlers))) ping = None"
    by simp
  from t1 m have 3: "off ping (JFun 7) two_handlers = two_handlers" "valid_name ping"
    by simp_all
  from t2 m have 4: "off padded (JFun 0) two_handlers = two_handlers" by blast
  from 1 2 3 4 m run_registrations show ?thesis by blast
qed

text \<open>
  Claim C10 as stated fails on the keys: \<^verbatim>\<open>on(' a ', cb)\<close> stores the key \<^verbatim>\<open>' a '\<close>, which
  is not trimmed, and nothing is stored under \<^verbatim>\<open>'a'\<close>.
\<close>

theorem C10_counterexample:
  "on padded (JFun 0) createInterface = Inr (createInterface\<lparr>handlers := [(padded, [0])]\<rparr>) \<and>
   padded = JStr (ascii '' a '') \<and> trim (ascii '' a '') = ascii ''a'' \<and>
   ascii '' a '' \<noteq> ascii ''a'' \<and>
   map_of [(padded, [0::nat])] (JStr (ascii ''a'')) = None"
  by (simp add: on_def validateEvent_def padded_def trim_def is_ws_def ascii_def
      createInterface_def set_add_def)

end
